theory Spec2Isabelle
  imports Complex_Main "HOL-Library.AList" "HOL-Library.Multiset"
begin

section \<open>The tablet load balancer of service/tablet\_allocator.cc\<close>

text \<open>
  The theory embeds \<^verbatim>\<open>load_balancer::make_plan(sstring dc)\<close>, the per-DC planner, as a
  HOL function over an immutable snapshot (topology and tablet metadata), and proves the
  properties of the plan it returns.

  Conventions of the embedding.
  \<^item> Identifiers (\<^verbatim>\<open>host_id\<close>, \<^verbatim>\<open>table_id\<close>, \<^verbatim>\<open>tablet_id\<close>, \<^verbatim>\<open>shard_id\<close>) are natural
    numbers; datacenter and rack names are strings.
  \<^item> \<^verbatim>\<open>load_type\<close> is \<^verbatim>\<open>double\<close> in the source and an exact rational here. The planner
    only divides a tablet count by a shard count and compares the quotients; IEEE division is
    correctly rounded, so the comparisons agree with the exact ones as long as the product of
    a tablet count and a shard count stays below \<open>2\<^sup>5\<^sup>2\<close>.
  \<^item> The counters \<^verbatim>\<open>tablet_count\<close> are 64-bit unsigned. Counting up is written \<open>+ 1\<close>:
    a counter counts replicas held in memory and cannot reach \<open>2\<^sup>6\<^sup>4\<close>. Counting down is
    written with its wrap-around (\<open>dec64\<close>).
  \<^item> Each \<^verbatim>\<open>std::unordered_map\<close> of the snapshot is an association list read as a map:
    the first entry of a key is the entry, iteration visits the keys in list order.
    The map \<^verbatim>\<open>nodes\<close> of the planner is a partial function together with the list of its
    keys in insertion order.
  \<^item> A \<^verbatim>\<open>std::unordered_set\<close> of candidates is a duplicate-free list; \<^verbatim>\<open>begin()\<close> is its head.
  \<^item> An exception, an internal error and a step the language leaves undefined (an index
    out of range, a dereferenced end iterator) are values of type \<open>error\<close>.
\<close>

subsection \<open>Errors\<close>

datatype error = Runtime_Error | Internal_Error | Undefined_Behaviour

subsection \<open>Snapshot\<close>

type_synonym host_id = nat
type_synonym shard_id = nat
type_synonym table_id = nat
type_synonym tablet_id = nat
type_synonym load_type = rat

text \<open>Modelled from the spec: the node state; the planner only asks whether it is \<open>normal\<close>.\<close>

datatype node_state = normal | not_normal

text \<open>Modelled from the spec: \<^verbatim>\<open>locator::node\<close> with its datacenter, rack, state and shard count.\<close>

record endpoint_dc_rack =
  dc :: string
  rack :: string

record node =
  get_state :: node_state
  dc_rack :: endpoint_dc_rack
  get_shard_count :: nat

type_synonym topology = "(host_id \<times> node) list"

record tablet_replica =
  host :: host_id
  shard :: shard_id

record global_tablet_id =
  table :: table_id
  tablet :: tablet_id

text \<open>Modelled from the spec: a tablet's replica list, and a table's tablet map with its
  pending transitions.\<close>

record tablet_info =
  replicas :: "tablet_replica list"

record tablet_map =
  tablet_list :: "tablet_info list"
  transitions :: "tablet_id list"

type_synonym tablet_metadata = "(table_id \<times> tablet_map) list"

record token_metadata =
  get_topology :: topology
  tablets :: tablet_metadata

record tablet_migration_info =
  mtablet :: global_tablet_id
  src :: tablet_replica
  dst :: tablet_replica

type_synonym migration_plan = "tablet_migration_info list"

text \<open>Modelled from the spec: \<^verbatim>\<open>topology::for_each_node\<close> visits every node once.\<close>

definition for_each_node :: "topology \<Rightarrow> (host_id \<times> node) list" where
  "for_each_node topo = AList.clearjunk topo"

text \<open>Modelled from the spec: \<^verbatim>\<open>topology::find_node\<close> returns the node or a null pointer.\<close>

definition find_node :: "topology \<Rightarrow> host_id \<Rightarrow> node option" where
  "find_node topo h = map_of topo h"

text \<open>Modelled from the spec: \<^verbatim>\<open>topology::get_node\<close> is the lookup that fails on a host
  the topology does not know.\<close>

definition get_node :: "topology \<Rightarrow> host_id \<Rightarrow> error + node" where
  "get_node topo h = (case find_node topo h of None \<Rightarrow> Inl Internal_Error | Some n \<Rightarrow> Inr n)"

text \<open>Modelled from the spec: \<^verbatim>\<open>tablet_metadata::all_tables\<close> yields every table with its map.\<close>

definition all_tables :: "tablet_metadata \<Rightarrow> (table_id \<times> tablet_map) list" where
  "all_tables tmeta = AList.clearjunk tmeta"

text \<open>Modelled from the spec: \<^verbatim>\<open>tablet_metadata::get_tablet_map\<close> fails on an unknown table.\<close>

definition get_tablet_map :: "tablet_metadata \<Rightarrow> table_id \<Rightarrow> error + tablet_map" where
  "get_tablet_map tmeta t = (case map_of tmeta t of None \<Rightarrow> Inl Runtime_Error | Some m \<Rightarrow> Inr m)"

text \<open>Modelled from the spec: \<^verbatim>\<open>tablet_map::for_each_tablet\<close> yields the tablets in order of
  their ids, which are the indices into the map's vector.\<close>

definition for_each_tablet :: "tablet_map \<Rightarrow> (tablet_id \<times> tablet_info) list" where
  "for_each_tablet tmap = enumerate 0 (tablet_list tmap)"

text \<open>Modelled from the spec: \<^verbatim>\<open>tablet_map::get_tablet_info\<close> indexes the vector.\<close>

definition get_tablet_info :: "tablet_map \<Rightarrow> tablet_id \<Rightarrow> error + tablet_info" where
  "get_tablet_info tmap tid =
     (if tid < length (tablet_list tmap) then Inr (tablet_list tmap ! tid)
      else Inl Undefined_Behaviour)"

subsection \<open>Load sketch\<close>

text \<open>Modelled from the spec: \<^verbatim>\<open>locator::load_sketch\<close> is not part of the sources. It holds the
  tablet count of every shard of the target; \<open>next_shard\<close> returns the shard with the lowest
  count, the lowest id among equals, and counts one tablet more on it.\<close>

type_synonym load_sketch = "nat list"

fun min_shard :: "nat list \<Rightarrow> shard_id" where
  "min_shard [] = 0"
| "min_shard [x] = 0"
| "min_shard (x # y # ys) =
     (let i = min_shard (y # ys) in if (y # ys) ! i < x then Suc i else 0)"

definition next_shard :: "load_sketch \<Rightarrow> shard_id \<times> load_sketch" where
  "next_shard sk = (let i = min_shard sk in (i, if i < length sk then sk[i := sk ! i + 1] else sk))"

definition populate :: "token_metadata \<Rightarrow> host_id \<Rightarrow> load_sketch" where
  "populate tm h =
     (case find_node (get_topology tm) h of None \<Rightarrow> []
      | Some n \<Rightarrow>
          map (\<lambda>s. length (filter (\<lambda>r. host r = h \<and> shard r = s)
                     (concat (map (\<lambda>(t, tmap). concat (map replicas (tablet_list tmap)))
                                  (all_tables (tablets tm))))))
              [0 ..< get_shard_count n])"

subsection \<open>Heaps\<close>

text \<open>
  \<^verbatim>\<open>std::make_heap\<close>, \<^verbatim>\<open>std::pop_heap\<close> and \<^verbatim>\<open>std::push_heap\<close> are fixed by their contract:
  the range becomes a max-heap for the comparison, \<^verbatim>\<open>pop_heap\<close> moves the first element
  to the back and \<^verbatim>\<open>push_heap\<close> admits the last one. The model keeps a heap as a list in
  descending order, which is a max-heap (every parent has a smaller index than its
  children). The proofs below use only that the three functions permute the list and that
  \<open>pop_heap\<close> keeps it non-empty.
\<close>

fun heap_insert :: "('a \<Rightarrow> 'a \<Rightarrow> bool) \<Rightarrow> 'a \<Rightarrow> 'a list \<Rightarrow> 'a list" where
  "heap_insert cmp x [] = [x]"
| "heap_insert cmp x (y # ys) = (if cmp y x then x # y # ys else y # heap_insert cmp x ys)"

definition make_heap :: "('a \<Rightarrow> 'a \<Rightarrow> bool) \<Rightarrow> 'a list \<Rightarrow> 'a list" where
  "make_heap cmp xs = foldr (heap_insert cmp) xs []"

definition pop_heap :: "('a \<Rightarrow> 'a \<Rightarrow> bool) \<Rightarrow> 'a list \<Rightarrow> 'a list" where
  "pop_heap cmp xs = (case xs of [] \<Rightarrow> [] | x # ys \<Rightarrow> ys @ [x])"

definition push_heap :: "('a \<Rightarrow> 'a \<Rightarrow> bool) \<Rightarrow> 'a list \<Rightarrow> 'a list" where
  "push_heap cmp xs = (if xs = [] then [] else heap_insert cmp (last xs) (butlast xs))"

subsection \<open>Per-shard and per-node load\<close>

record shard_load =
  sl_tablet_count :: nat
  candidates :: "global_tablet_id list"

text \<open>The field \<^verbatim>\<open>node_load::node\<close> is never written or read and is left out.\<close>

record node_load =
  shard_count :: nat
  tablet_count :: nat
  avg_load :: load_type
  shards_by_load :: "shard_id list"
  shards :: "shard_load list"

type_synonym node_loads = "host_id \<Rightarrow> node_load option"

definition dec64 :: "nat \<Rightarrow> nat" where
  "dec64 n = (if n = 0 then 2 ^ 64 - 1 else n - 1)"

definition get_avg_load :: "node_load \<Rightarrow> nat \<Rightarrow> load_type" where
  "get_avg_load n k = of_nat k / of_nat (shard_count n)"

definition update :: "node_load \<Rightarrow> node_load" where
  "update n = n\<lparr>avg_load := get_avg_load n (tablet_count n)\<rparr>"

definition shards_by_load_cmp :: "node_load \<Rightarrow> shard_id \<Rightarrow> shard_id \<Rightarrow> bool" where
  "shards_by_load_cmp n a b =
     (a < length (shards n) \<and> b < length (shards n) \<and>
      sl_tablet_count (shards n ! a) < sl_tablet_count (shards n ! b))"

definition empty_shard_load :: shard_load where
  "empty_shard_load = \<lparr>sl_tablet_count = 0, candidates = []\<rparr>"

definition empty_node_load :: node_load where
  "empty_node_load =
     \<lparr>shard_count = 0, tablet_count = 0, avg_load = 0, shards_by_load = [], shards = []\<rparr>"

text \<open>\<^verbatim>\<open>nodes[h]\<close>: the entry of \<open>h\<close>, a value-initialised one when \<open>h\<close> has none yet.\<close>

definition node_at :: "node_loads \<Rightarrow> host_id \<Rightarrow> node_load" where
  "node_at nodes h = (case nodes h of None \<Rightarrow> empty_node_load | Some n \<Rightarrow> n)"

definition nodes_cmp :: "node_loads \<Rightarrow> host_id \<Rightarrow> host_id \<Rightarrow> bool" where
  "nodes_cmp nodes a b = (avg_load (node_at nodes a) < avg_load (node_at nodes b))"

definition resize :: "nat \<Rightarrow> shard_load list \<Rightarrow> shard_load list" where
  "resize n xs = take n xs @ replicate (n - length xs) empty_shard_load"

subsection \<open>Phases A and B: the nodes to balance and their load\<close>

fun fold_err :: "('a \<Rightarrow> 's \<Rightarrow> error + 's) \<Rightarrow> 'a list \<Rightarrow> 's \<Rightarrow> error + 's" where
  "fold_err f [] s = Inr s"
| "fold_err f (x # xs) s = (case f x s of Inl e \<Rightarrow> Inl e | Inr s' \<Rightarrow> fold_err f xs s')"

text \<open>The callback of \<^verbatim>\<open>for_each_node\<close> (lines 152 to 161): a normal node of the datacenter gets
  an entry with its shard count and as many empty shards; a shard count of zero throws.\<close>

fun select_nodes :: "string \<Rightarrow> (host_id \<times> node) list \<Rightarrow> node_loads \<Rightarrow> error + node_loads" where
  "select_nodes dcname [] nodes = Inr nodes"
| "select_nodes dcname ((h, n) # rest) nodes =
     (if get_state n = normal \<and> dc (dc_rack n) = dcname then
        (let load0 = (node_at nodes h)\<lparr>shard_count := get_shard_count n\<rparr>;
             load = load0\<lparr>shards := resize (shard_count load0) (shards load0)\<rparr>
         in if shard_count load = 0 then Inl Runtime_Error
            else select_nodes dcname rest (nodes(h \<mapsto> load)))
      else select_nodes dcname rest nodes)"

text \<open>The keys of \<^verbatim>\<open>nodes\<close> in the order in which the loops over \<^verbatim>\<open>nodes\<close> visit them.\<close>

definition node_keys :: "string \<Rightarrow> topology \<Rightarrow> host_id list" where
  "node_keys dcname topo =
     map fst (filter (\<lambda>(h, n). get_state n = normal \<and> dc (dc_rack n) = dcname) (for_each_node topo))"

text \<open>Lines 167 to 176: one replica of one tablet.\<close>

definition count_replica :: "tablet_replica \<Rightarrow> node_loads \<Rightarrow> error + node_loads" where
  "count_replica replica nodes =
     (case nodes (host replica) of
        None \<Rightarrow> Inr nodes
      | Some n \<Rightarrow>
          (let n' = n\<lparr>tablet_count := tablet_count n + 1\<rparr>
           in if shard replica \<ge> shard_count n' then Inl Internal_Error
              else Inr (nodes(host replica \<mapsto> n'))))"

definition compute_tablet_load :: "tablet_metadata \<Rightarrow> node_loads \<Rightarrow> error + node_loads" where
  "compute_tablet_load tmeta =
     fold_err (\<lambda>(tbl, tmap). fold_err (\<lambda>(tid, ti). fold_err count_replica (replicas ti))
                                        (for_each_tablet tmap))
              (all_tables tmeta)"

subsection \<open>Phase C: load imbalance and target\<close>

text \<open>Lines 182 to 194; the accumulator is \<open>(nodes, max_load, min_load, min_load_node)\<close>.\<close>

fun compute_imbalance ::
  "host_id list \<Rightarrow> node_loads \<times> load_type \<times> load_type \<times> host_id option \<Rightarrow>
   node_loads \<times> load_type \<times> load_type \<times> host_id option" where
  "compute_imbalance [] acc = acc"
| "compute_imbalance (h # hs) (nodes, max_load, min_load, min_load_node) =
     (let load = update (node_at nodes h);
          lower = (min_load_node = None \<or> avg_load load < min_load)
      in compute_imbalance hs
           (nodes(h \<mapsto> load),
            if avg_load load > max_load then avg_load load else max_load,
            if lower then avg_load load else min_load,
            if lower then Some h else min_load_node))"

subsection \<open>Phase D: per-shard load and candidates\<close>

text \<open>Lines 240 to 251: one replica of the tablet \<open>gid\<close>.\<close>

definition add_candidate :: "global_tablet_id \<Rightarrow> tablet_replica \<Rightarrow> node_loads \<Rightarrow> error + node_loads" where
  "add_candidate gid replica nodes =
     (case nodes (host replica) of
        None \<Rightarrow> Inr nodes
      | Some node_load_info \<Rightarrow>
          if shard replica \<ge> length (shards node_load_info) then Inl Undefined_Behaviour
          else
            (let shard_load_info = shards node_load_info ! shard replica;
                 sbl = (if sl_tablet_count shard_load_info = 0
                        then shards_by_load node_load_info @ [shard replica]
                        else shards_by_load node_load_info);
                 shard_load_info' = shard_load_info
                   \<lparr>sl_tablet_count := sl_tablet_count shard_load_info + 1,
                    candidates := List.insert gid (candidates shard_load_info)\<rparr>
             in Inr (nodes(host replica \<mapsto> node_load_info
                      \<lparr>shards_by_load := sbl,
                       shards := (shards node_load_info)[shard replica := shard_load_info']\<rparr>))))"

text \<open>Lines 232 to 253; the result \<open>None\<close> is the early return on pending transitions.\<close>

fun compute_shard_load ::
  "(table_id \<times> tablet_map) list \<Rightarrow> node_loads \<Rightarrow> error + node_loads option" where
  "compute_shard_load [] nodes = Inr (Some nodes)"
| "compute_shard_load ((tbl, tmap) # rest) nodes =
     (if transitions tmap \<noteq> [] then Inr None
      else case fold_err (\<lambda>(tid, ti). fold_err (add_candidate \<lparr>table = tbl, tablet = tid\<rparr>) (replicas ti))
                         (for_each_tablet tmap) nodes of
             Inl e \<Rightarrow> Inl e
           | Inr nodes' \<Rightarrow> compute_shard_load rest nodes')"

subsection \<open>Phase E: the heaps\<close>

definition make_shard_heaps :: "host_id list \<Rightarrow> node_loads \<Rightarrow> node_loads" where
  "make_shard_heaps hs nodes =
     fold (\<lambda>h ns. let nl = node_at ns h
                  in ns(h \<mapsto> nl\<lparr>shards_by_load := make_heap (shards_by_load_cmp nl) (shards_by_load nl)\<rparr>))
          hs nodes"

subsection \<open>Phase G: the selection loop\<close>

record lb_state =
  nodes :: node_loads
  nodes_by_load :: "host_id list"
  target_load :: load_sketch
  plan :: migration_plan
  max_off_candidate_load :: load_type

record lb_context =
  tm :: token_metadata
  dc_name :: string
  target :: host_id
  target_node :: node
  batch_size :: nat

datatype outcome = Stop | Next lb_state | Fault error

text \<open>The two deferred actions of lines 331 and 344.\<close>

definition push_back_node_candidate :: "lb_state \<Rightarrow> lb_state" where
  "push_back_node_candidate s =
     s\<lparr>nodes_by_load := push_heap (nodes_cmp (nodes s)) (nodes_by_load s)\<rparr>"

definition push_back_shard_candidate :: "host_id \<Rightarrow> lb_state \<Rightarrow> lb_state" where
  "push_back_shard_candidate src_host s =
     (let n = node_at (nodes s) src_host
      in s\<lparr>nodes := (nodes s)(src_host \<mapsto>
              n\<lparr>shards_by_load := push_heap (shards_by_load_cmp n) (shards_by_load n)\<rparr>)\<rparr>)"

type_synonym rack_load = "(string \<times> int) list"

fun rack_load_incr :: "string \<Rightarrow> rack_load \<Rightarrow> rack_load" where
  "rack_load_incr r [] = [(r, 1)]"
| "rack_load_incr r ((k, v) # kvs) =
     (if k = r then (k, v + 1) # kvs else (k, v) # rack_load_incr r kvs)"

definition rack_load_at :: "rack_load \<Rightarrow> string \<Rightarrow> int" where
  "rack_load_at rl r = (case map_of rl r of None \<Rightarrow> 0 | Some v \<Rightarrow> v)"

text \<open>\<^verbatim>\<open>std::max_element(...)->second\<close> of line 377; on an empty map the iterator is \<^verbatim>\<open>end()\<close>.\<close>

definition max_rack_load :: "rack_load \<Rightarrow> error + int" where
  "max_rack_load rl = (case rl of [] \<Rightarrow> Inl Undefined_Behaviour
                       | kv # kvs \<Rightarrow> Inr (fold max (map snd kvs) (snd kv)))"

text \<open>The loop of lines 357 to 368 over the replicas of the candidate; the result is
  \<open>(has_replica_on_target, rack_load)\<close>.\<close>

fun scan_replicas ::
  "topology \<Rightarrow> string \<Rightarrow> host_id \<Rightarrow> bool \<Rightarrow> tablet_replica list \<Rightarrow> rack_load \<Rightarrow>
   error + bool \<times> rack_load" where
  "scan_replicas topo dcname tgt same_rack [] rl = Inr (False, rl)"
| "scan_replicas topo dcname tgt same_rack (r # rs) rl =
     (if host r = tgt then Inr (True, rl)
      else if \<not> same_rack then
        (case get_node topo (host r) of
           Inl e \<Rightarrow> Inl e
         | Inr n \<Rightarrow> scan_replicas topo dcname tgt same_rack rs
                     (if dc (dc_rack n) = dcname then rack_load_incr (rack (dc_rack n)) rl else rl))
      else scan_replicas topo dcname tgt same_rack rs rl)"

text \<open>Lines 353 to 385: \<open>Inr True\<close> when the candidate may move to the target, \<open>Inr False\<close>
  when it is skipped.\<close>

definition check_constraints :: "lb_context \<Rightarrow> host_id \<Rightarrow> global_tablet_id \<Rightarrow> error + bool" where
  "check_constraints c src_host source_tablet =
     (case get_node (get_topology (tm c)) src_host of
        Inl e \<Rightarrow> Inl e
      | Inr src_node \<Rightarrow>
     (let same_rack = (rack (dc_rack (target_node c)) = rack (dc_rack src_node)) in
      case get_tablet_map (tablets (tm c)) (table source_tablet) of
        Inl e \<Rightarrow> Inl e
      | Inr tmap \<Rightarrow>
     (case get_tablet_info tmap (tablet source_tablet) of
        Inl e \<Rightarrow> Inl e
      | Inr ti \<Rightarrow>
     (case scan_replicas (get_topology (tm c)) (dc_name c) (target c) same_rack (replicas ti) [] of
        Inl e \<Rightarrow> Inl e
      | Inr (has_replica_on_target, rl) \<Rightarrow>
          if has_replica_on_target then Inr False
          else if \<not> same_rack then
            (case max_rack_load rl of
               Inl e \<Rightarrow> Inl e
             | Inr max_rl \<Rightarrow>
                 (let new_rack_load = rack_load_at rl (rack (dc_rack (target_node c))) + 1
                  in if new_rack_load > max_rl then Inr False else Inr True))
          else Inr True))))"

text \<open>Lines 387 to 405: the migration is appended and the loads are updated.\<close>

definition emit :: "lb_context \<Rightarrow> host_id \<Rightarrow> shard_id \<Rightarrow> global_tablet_id \<Rightarrow> lb_state \<Rightarrow> lb_state" where
  "emit c src_host src_shard source_tablet s =
     (let (dst_shard, sk) = next_shard (target_load s);
          m = \<lparr>mtablet = source_tablet,
               src = \<lparr>host = src_host, shard = src_shard\<rparr>,
               dst = \<lparr>host = target c, shard = dst_shard\<rparr>\<rparr>;
          s1 = s\<lparr>plan := plan s @ [m], target_load := sk\<rparr>;
          target_info = node_at (nodes s1) (target c);
          s2 = s1\<lparr>nodes := (nodes s1)(target c \<mapsto>
                   update (target_info\<lparr>tablet_count := tablet_count target_info + 1\<rparr>))\<rparr>;
          src_node_info = node_at (nodes s2) src_host;
          src_shard_info = shards src_node_info ! src_shard;
          src_shard_info' = src_shard_info\<lparr>sl_tablet_count := dec64 (sl_tablet_count src_shard_info)\<rparr>;
          shard_cancel = (sl_tablet_count src_shard_info' = 0);
          src_node_info1 = src_node_info
            \<lparr>shards := (shards src_node_info)[src_shard := src_shard_info'],
             shards_by_load := (if shard_cancel then butlast (shards_by_load src_node_info)
                                else shards_by_load src_node_info)\<rparr>;
          src_node_info2 = update (src_node_info1\<lparr>tablet_count := dec64 (tablet_count src_node_info1)\<rparr>);
          node_cancel = (tablet_count src_node_info2 = 0);
          s3 = s2\<lparr>nodes := (nodes s2)(src_host \<mapsto> src_node_info2),
                  nodes_by_load := (if node_cancel then butlast (nodes_by_load s2)
                                    else nodes_by_load s2)\<rparr>;
          s4 = (if shard_cancel then s3 else push_back_shard_candidate src_host s3)
      in if node_cancel then s4 else push_back_node_candidate s4)"

text \<open>Lines 348 to 405: a candidate of the source shard is taken out of its set and either
  skipped or moved.\<close>

definition select_candidate :: "lb_context \<Rightarrow> host_id \<Rightarrow> shard_id \<Rightarrow> lb_state \<Rightarrow> outcome" where
  "select_candidate c src_host src_shard s =
     (let src_node_info = node_at (nodes s) src_host;
          src_shard_info = shards src_node_info ! src_shard;
          source_tablet = hd (candidates src_shard_info);
          src_shard_info' = src_shard_info
            \<lparr>candidates := removeAll source_tablet (candidates src_shard_info)\<rparr>;
          s1 = s\<lparr>nodes := (nodes s)(src_host \<mapsto> src_node_info
                  \<lparr>shards := (shards src_node_info)[src_shard := src_shard_info']\<rparr>)\<rparr>
      in case check_constraints c src_host source_tablet of
           Inl e \<Rightarrow> Fault e
         | Inr False \<Rightarrow> Next (push_back_node_candidate (push_back_shard_candidate src_host s1))
         | Inr True \<Rightarrow> Next (emit c src_host src_shard source_tablet s1))"

text \<open>Lines 335 to 346: the most loaded shard of the source node.\<close>

definition select_shard :: "lb_context \<Rightarrow> host_id \<Rightarrow> lb_state \<Rightarrow> outcome" where
  "select_shard c src_host s =
     (let src_node_info = node_at (nodes s) src_host;
          sbl = pop_heap (shards_by_load_cmp src_node_info) (shards_by_load src_node_info);
          src_shard = last sbl
      in if src_shard \<ge> length (shards src_node_info) then Fault Undefined_Behaviour
         else if candidates (shards src_node_info ! src_shard) = [] then
           Next (push_back_node_candidate
                   (s\<lparr>nodes := (nodes s)(src_host \<mapsto> src_node_info\<lparr>shards_by_load := butlast sbl\<rparr>)\<rparr>))
         else select_candidate c src_host src_shard
                (s\<lparr>nodes := (nodes s)(src_host \<mapsto> src_node_info\<lparr>shards_by_load := sbl\<rparr>)\<rparr>))"

text \<open>Lines 287 to 405: one iteration. \<open>Stop\<close> is a \<^verbatim>\<open>break\<close>, \<open>Next\<close> the state at the end
  of the iteration, after the deferred actions.\<close>

definition loop_body :: "lb_context \<Rightarrow> lb_state \<Rightarrow> outcome" where
  "loop_body c s =
     (let nbl = pop_heap (nodes_cmp (nodes s)) (nodes_by_load s);
          src_host = last nbl;
          src_node_info = node_at (nodes s) src_host;
          target_info = node_at (nodes s) (target c)
      in if max (max_off_candidate_load s) (avg_load src_node_info) = avg_load target_info then Stop
         else if avg_load src_node_info \<le> avg_load target_info then Stop
         else if get_avg_load src_node_info (dec64 (tablet_count src_node_info))
                   < get_avg_load target_info (tablet_count target_info + 1) then Stop
         else if shards_by_load src_node_info = [] then
           Next (s\<lparr>max_off_candidate_load :=
                      max (max_off_candidate_load s) (avg_load src_node_info),
                    nodes_by_load := butlast nbl\<rparr>)
         else select_shard c src_host (s\<lparr>nodes_by_load := nbl\<rparr>))"

subsection \<open>Termination of the selection loop\<close>

text \<open>
  Every iteration that does not leave the loop takes something away for good: a node from
  \<open>nodes_by_load\<close>, a shard from a \<open>shards_by_load\<close>, or a candidate from a shard. The
  measure counts, for every entry of \<open>nodes_by_load\<close>, one for the node, one for each of its
  queued shards and one for each candidate of its shards.
\<close>

definition node_weight :: "node_load \<Rightarrow> nat" where
  "node_weight n = 1 + length (shards_by_load n) + sum_list (map (\<lambda>sl. length (candidates sl)) (shards n))"

definition heap_weight :: "node_loads \<Rightarrow> host_id list \<Rightarrow> nat" where
  "heap_weight ns hs = sum_list (map (\<lambda>h. node_weight (node_at ns h)) hs)"

definition loop_measure :: "lb_state \<Rightarrow> nat" where
  "loop_measure s = heap_weight (nodes s) (nodes_by_load s)"

lemma mset_heap_insert [simp]: "mset (heap_insert cmp x xs) = add_mset x (mset xs)"
  by (induction xs) auto

lemma mset_make_heap [simp]: "mset (make_heap cmp xs) = mset xs"
  by (induction xs) (auto simp: make_heap_def)

lemma mset_pop_heap [simp]: "mset (pop_heap cmp xs) = mset xs"
  by (cases xs) (auto simp: pop_heap_def)

lemma mset_push_heap [simp]: "mset (push_heap cmp xs) = mset xs"
proof (cases "xs = []")
  case True
  then show ?thesis by (simp add: push_heap_def)
next
  case False
  then have "xs = butlast xs @ [last xs]" by simp
  then have "mset xs = add_mset (last xs) (mset (butlast xs))"
    by (metis mset.simps(2) mset_append union_mset_add_mset_right add.right_neutral mset.simps(1))
  with False show ?thesis by (simp add: push_heap_def)
qed

lemma set_push_heap [simp]: "set (push_heap cmp xs) = set xs"
  by (metis mset_push_heap set_mset_mset)

lemma set_pop_heap [simp]: "set (pop_heap cmp xs) = set xs"
  by (metis mset_pop_heap set_mset_mset)

lemma set_make_heap [simp]: "set (make_heap cmp xs) = set xs"
  by (metis mset_make_heap set_mset_mset)

lemma length_push_heap [simp]: "length (push_heap cmp xs) = length xs"
  by (metis mset_push_heap size_mset)

lemma length_pop_heap [simp]: "length (pop_heap cmp xs) = length xs"
  by (metis mset_pop_heap size_mset)

lemma pop_heap_Nil_iff [simp]: "pop_heap cmp xs = [] \<longleftrightarrow> xs = []"
  by (cases xs) (auto simp: pop_heap_def)

lemma heap_weight_mset: "mset hs = mset hs' \<Longrightarrow> heap_weight ns hs = heap_weight ns hs'"
  unfolding heap_weight_def by (metis mset_map sum_mset_sum_list)

lemma heap_weight_butlast_le: "heap_weight ns (butlast hs) \<le> heap_weight ns hs"
  by (induction hs) (auto simp: heap_weight_def)

lemma heap_weight_butlast_less: "hs \<noteq> [] \<Longrightarrow> heap_weight ns (butlast hs) < heap_weight ns hs"
  by (induction hs) (auto simp: heap_weight_def node_weight_def)

lemma heap_weight_upd_le:
  "node_weight n' \<le> node_weight (node_at ns h) \<Longrightarrow> heap_weight (ns(h \<mapsto> n')) hs \<le> heap_weight ns hs"
  by (induction hs) (auto simp: heap_weight_def node_at_def intro: add_mono)

lemma heap_weight_upd_less:
  "node_weight n' < node_weight (node_at ns h) \<Longrightarrow> h \<in> set hs \<Longrightarrow>
   heap_weight (ns(h \<mapsto> n')) hs < heap_weight ns hs"
proof (induction hs)
  case Nil
  then show ?case by simp
next
  case (Cons a hs)
  have le: "heap_weight (ns(h \<mapsto> n')) hs \<le> heap_weight ns hs"
    using Cons.prems(1) by (intro heap_weight_upd_le) simp
  show ?case
  proof (cases "a = h")
    case True
    then show ?thesis using Cons.prems(1) le by (simp add: heap_weight_def node_at_def)
  next
    case False
    then have "h \<in> set hs" using Cons.prems(2) by simp
    from Cons.IH[OF Cons.prems(1) this] False show ?thesis
      by (simp add: heap_weight_def node_at_def)
  qed
qed


lemma update_fields [simp]:
  "shards (update n) = shards n"
  "shards_by_load (update n) = shards_by_load n"
  "shard_count (update n) = shard_count n"
  "tablet_count (update n) = tablet_count n"
  "avg_load (update n) = get_avg_load n (tablet_count n)"
  by (simp_all add: update_def)

lemma node_weight_simps [simp]:
  "node_weight (n\<lparr>tablet_count := k\<rparr>) = node_weight n"
  "node_weight (n\<lparr>avg_load := a\<rparr>) = node_weight n"
  "node_weight (update n) = node_weight n"
  by (simp_all add: node_weight_def update_def)

lemma loop_measure_push_node [simp]:
  "loop_measure (push_back_node_candidate s) = loop_measure s"
  by (simp add: loop_measure_def push_back_node_candidate_def heap_weight_mset[of "push_heap _ _"])

lemma loop_measure_push_shard:
  "loop_measure (push_back_shard_candidate h s) \<le> loop_measure s"
  by (simp add: loop_measure_def push_back_shard_candidate_def Let_def heap_weight_upd_le node_weight_def)

lemma sum_list_candidates_update:
  "i < length xs \<Longrightarrow> candidates sl = candidates (xs ! i) \<Longrightarrow>
   sum_list (map (\<lambda>sl. length (candidates sl)) (xs[i := sl])) = sum_list (map (\<lambda>sl. length (candidates sl)) xs)"
  by (metis list_update_id map_update)

lemma sum_list_candidates_update_ge:
  "candidates sl = candidates (xs ! i) \<Longrightarrow>
   sum_list (map (\<lambda>sl. length (candidates sl)) (xs[i := sl])) = sum_list (map (\<lambda>sl. length (candidates sl)) xs)"
  by (cases "i < length xs") (simp_all add: sum_list_candidates_update list_update_beyond)

lemma loop_measure_emit:
  "loop_measure (emit c src_host src_shard source_tablet s) \<le> loop_measure s"
proof -
  obtain dst_shard sk where ns: "next_shard (target_load s) = (dst_shard, sk)" by force
  define m where "m = \<lparr>mtablet = source_tablet, src = \<lparr>host = src_host, shard = src_shard\<rparr>,
               dst = \<lparr>host = target c, shard = dst_shard\<rparr>\<rparr>"
  define s1 where "s1 = s\<lparr>plan := plan s @ [m], target_load := sk\<rparr>"
  define target_info where "target_info = node_at (nodes s1) (target c)"
  define s2 where "s2 = s1\<lparr>nodes := (nodes s1)(target c \<mapsto>
                   update (target_info\<lparr>tablet_count := tablet_count target_info + 1\<rparr>))\<rparr>"
  define src_node_info where "src_node_info = node_at (nodes s2) src_host"
  define src_shard_info where "src_shard_info = shards src_node_info ! src_shard"
  define src_shard_info' where "src_shard_info' = src_shard_info\<lparr>sl_tablet_count := dec64 (sl_tablet_count src_shard_info)\<rparr>"
  define shard_cancel where "shard_cancel = (sl_tablet_count src_shard_info' = 0)"
  define src_node_info1 where "src_node_info1 = src_node_info
            \<lparr>shards := (shards src_node_info)[src_shard := src_shard_info'],
             shards_by_load := (if shard_cancel then butlast (shards_by_load src_node_info)
                                else shards_by_load src_node_info)\<rparr>"
  define src_node_info2 where "src_node_info2 = update (src_node_info1\<lparr>tablet_count := dec64 (tablet_count src_node_info1)\<rparr>)"
  define node_cancel where "node_cancel = (tablet_count src_node_info2 = 0)"
  define s3 where "s3 = s2\<lparr>nodes := (nodes s2)(src_host \<mapsto> src_node_info2),
                  nodes_by_load := (if node_cancel then butlast (nodes_by_load s2)
                                    else nodes_by_load s2)\<rparr>"
  define s4 where "s4 = (if shard_cancel then s3 else push_back_shard_candidate src_host s3)"
  have e: "emit c src_host src_shard source_tablet s = (if node_cancel then s4 else push_back_node_candidate s4)"
    unfolding emit_def ns Let_def prod.case
    by (simp only: m_def s1_def target_info_def s2_def src_node_info_def src_shard_info_def
         src_shard_info'_def shard_cancel_def src_node_info1_def src_node_info2_def node_cancel_def
         s3_def s4_def)
  have 1: "loop_measure s1 = loop_measure s" by (simp add: s1_def loop_measure_def)
  have 2: "loop_measure s2 \<le> loop_measure s1"
    by (simp add: s2_def loop_measure_def target_info_def heap_weight_upd_le)
  have w: "node_weight src_node_info2 \<le> node_weight (node_at (nodes s2) src_host)"
    unfolding src_node_info2_def src_node_info1_def src_node_info_def[symmetric]
    by (simp add: node_weight_def sum_list_candidates_update_ge src_shard_info'_def src_shard_info_def)
  have 3: "loop_measure s3 \<le> loop_measure s2"
  proof -
    have "heap_weight ((nodes s2)(src_host \<mapsto> src_node_info2)) (nodes_by_load s3)
          \<le> heap_weight (nodes s2) (nodes_by_load s3)"
      using w by (rule heap_weight_upd_le)
    also have "\<dots> \<le> heap_weight (nodes s2) (nodes_by_load s2)"
      by (simp add: s3_def heap_weight_butlast_le)
    finally show ?thesis by (simp add: loop_measure_def s3_def)
  qed
  have 4: "loop_measure s4 \<le> loop_measure s3"
    by (simp add: s4_def loop_measure_push_shard)
  show ?thesis using 1 2 3 4 by (simp add: e)
qed


lemma sum_list_map_update_less:
  fixes f :: "'a \<Rightarrow> nat"
  assumes "i < length xs" "f y < f (xs ! i)"
  shows "sum_list (map f (xs[i := y])) < sum_list (map f xs)"
proof -
  have "f (xs ! i) \<le> sum_list (map f xs)"
    using assms(1) by (auto intro: member_le_sum_list)
  moreover have "sum_list (map f (xs[i := y])) = sum_list (map f xs) + f y - f (xs ! i)"
    using assms(1) by (simp add: map_update sum_list_update)
  ultimately show ?thesis using assms(2) by linarith
qed

lemma length_removeAll_hd: "xs \<noteq> [] \<Longrightarrow> length (removeAll (hd xs) xs) < length xs"
  by (cases xs) (auto simp: less_Suc_eq_le)

lemma loop_measure_select_candidate:
  assumes "select_candidate c src_host src_shard s = Next s'"
    and "src_host \<in> set (nodes_by_load s)"
    and "src_shard < length (shards (node_at (nodes s) src_host))"
    and "candidates (shards (node_at (nodes s) src_host) ! src_shard) \<noteq> []"
  shows "loop_measure s' < loop_measure s"
proof -
  define src_node_info where "src_node_info = node_at (nodes s) src_host"
  define src_shard_info where "src_shard_info = shards src_node_info ! src_shard"
  define source_tablet where "source_tablet = hd (candidates src_shard_info)"
  define src_shard_info' where "src_shard_info' = src_shard_info
            \<lparr>candidates := removeAll source_tablet (candidates src_shard_info)\<rparr>"
  define s1 where "s1 = s\<lparr>nodes := (nodes s)(src_host \<mapsto> src_node_info
                  \<lparr>shards := (shards src_node_info)[src_shard := src_shard_info']\<rparr>)\<rparr>"
  have e: "select_candidate c src_host src_shard s =
      (case check_constraints c src_host source_tablet of
           Inl e \<Rightarrow> Fault e
         | Inr False \<Rightarrow> Next (push_back_node_candidate (push_back_shard_candidate src_host s1))
         | Inr True \<Rightarrow> Next (emit c src_host src_shard source_tablet s1))"
    unfolding select_candidate_def Let_def
    by (simp only: src_node_info_def src_shard_info_def source_tablet_def src_shard_info'_def s1_def)
  have "length (candidates src_shard_info') < length (candidates (shards src_node_info ! src_shard))"
    using assms(4) by (simp add: src_shard_info'_def source_tablet_def src_shard_info_def
        src_node_info_def length_removeAll_hd)
  then have "node_weight (src_node_info\<lparr>shards := (shards src_node_info)[src_shard := src_shard_info']\<rparr>)
        < node_weight (node_at (nodes s) src_host)"
    using assms(3) sum_list_map_update_less[of src_shard "shards src_node_info"
        "\<lambda>sl. length (candidates sl)" src_shard_info']
    by (simp add: node_weight_def src_node_info_def)
  then have 1: "loop_measure s1 < loop_measure s"
    using assms(2) by (simp add: s1_def loop_measure_def heap_weight_upd_less)
  have 2: "loop_measure (push_back_node_candidate (push_back_shard_candidate src_host s1)) \<le> loop_measure s1"
    by (simp add: loop_measure_push_shard)
  have 3: "loop_measure (emit c src_host src_shard source_tablet s1) \<le> loop_measure s1"
    by (rule loop_measure_emit)
  from assms(1) 1 2 3 show ?thesis
    unfolding e by (auto split: sum.splits bool.splits)
qed

lemma loop_measure_select_shard:
  assumes "select_shard c src_host s = Next s'"
    and "src_host \<in> set (nodes_by_load s)"
    and "shards_by_load (node_at (nodes s) src_host) \<noteq> []"
  shows "loop_measure s' < loop_measure s"
proof -
  define src_node_info where "src_node_info = node_at (nodes s) src_host"
  define sbl where "sbl = pop_heap (shards_by_load_cmp src_node_info) (shards_by_load src_node_info)"
  define src_shard where "src_shard = last sbl"
  define sa where "sa = s\<lparr>nodes := (nodes s)(src_host \<mapsto> src_node_info\<lparr>shards_by_load := butlast sbl\<rparr>)\<rparr>"
  define sb where "sb = s\<lparr>nodes := (nodes s)(src_host \<mapsto> src_node_info\<lparr>shards_by_load := sbl\<rparr>)\<rparr>"
  have e: "select_shard c src_host s =
     (if src_shard \<ge> length (shards src_node_info) then Fault Undefined_Behaviour
         else if candidates (shards src_node_info ! src_shard) = [] then
           Next (push_back_node_candidate sa)
         else select_candidate c src_host src_shard sb)"
    unfolding select_shard_def Let_def
    by (simp only: src_node_info_def sbl_def src_shard_def sa_def sb_def)
  have ne: "sbl \<noteq> []" using assms(3) by (simp add: sbl_def src_node_info_def)
  have len: "length sbl = length (shards_by_load (node_at (nodes s) src_host))"
    by (simp add: sbl_def src_node_info_def)
  have "node_weight (src_node_info\<lparr>shards_by_load := butlast sbl\<rparr>) < node_weight (node_at (nodes s) src_host)"
    using assms(3) len by (cases "shards_by_load (node_at (nodes s) src_host)")
      (simp_all add: node_weight_def src_node_info_def)
  then have a: "loop_measure sa < loop_measure s"
    using assms(2) by (simp add: sa_def loop_measure_def heap_weight_upd_less)
  have "node_weight (src_node_info\<lparr>shards_by_load := sbl\<rparr>) \<le> node_weight (node_at (nodes s) src_host)"
    using len by (simp add: node_weight_def src_node_info_def)
  then have b: "loop_measure sb \<le> loop_measure s"
    by (simp add: sb_def loop_measure_def heap_weight_upd_le)
  show ?thesis
  proof (cases "candidates (shards src_node_info ! src_shard) = []")
    case True
    with assms(1) a show ?thesis unfolding e by (auto split: if_splits)
  next
    case False
    with assms(1) have lt: "src_shard < length (shards src_node_info)"
      and sc: "select_candidate c src_host src_shard sb = Next s'"
      unfolding e by (auto split: if_splits)
    have "loop_measure s' < loop_measure sb"
      using sc assms(2) lt False
      by (intro loop_measure_select_candidate[of c src_host src_shard sb s'])
         (simp_all add: sb_def node_at_def)
    with b show ?thesis by simp
  qed
qed

lemma last_pop_heap_in_set: "xs \<noteq> [] \<Longrightarrow> last (pop_heap cmp xs) \<in> set xs"
  by (metis last_in_set pop_heap_Nil_iff set_pop_heap)

lemma loop_measure_loop_body:
  assumes "loop_body c s = Next s'" and "nodes_by_load s \<noteq> []"
  shows "loop_measure s' < loop_measure s"
proof -
  define nbl where "nbl = pop_heap (nodes_cmp (nodes s)) (nodes_by_load s)"
  define src_host where "src_host = last nbl"
  define src_node_info where "src_node_info = node_at (nodes s) src_host"
  define sa where "sa = s\<lparr>max_off_candidate_load :=
                      max (max_off_candidate_load s) (avg_load src_node_info),
                    nodes_by_load := butlast nbl\<rparr>"
  define sb where "sb = s\<lparr>nodes_by_load := nbl\<rparr>"
  have ne: "nbl \<noteq> []" using assms(2) by (simp add: nbl_def)
  have a: "loop_measure sa < loop_measure s"
    using heap_weight_butlast_less[OF ne, of "nodes s"] heap_weight_mset[of nbl "nodes_by_load s" "nodes s"]
    by (simp add: sa_def loop_measure_def nbl_def)
  have b: "loop_measure sb = loop_measure s"
    using heap_weight_mset[of nbl "nodes_by_load s" "nodes s"]
    by (simp add: sb_def loop_measure_def nbl_def)
  have cases: "s' = sa \<or> (shards_by_load src_node_info \<noteq> [] \<and> select_shard c src_host sb = Next s')"
    using assms(1) unfolding loop_body_def Let_def
    by (simp only: nbl_def[symmetric] src_host_def[symmetric] src_node_info_def[symmetric]
          sa_def[symmetric] sb_def[symmetric] split: if_splits) auto
  then show ?thesis
  proof
    assume "s' = sa" with a show ?thesis by simp
  next
    assume h: "shards_by_load src_node_info \<noteq> [] \<and> select_shard c src_host sb = Next s'"
    have "src_host \<in> set (nodes_by_load sb)"
      using ne by (simp add: sb_def src_host_def)
    with h have "loop_measure s' < loop_measure sb"
      by (intro loop_measure_select_shard[of c src_host sb s']) (simp_all add: sb_def src_node_info_def)
    with b show ?thesis by simp
  qed
qed

text \<open>Line 286: the loop runs while the plan is below the batch size and candidate nodes remain.\<close>

function loop :: "lb_context \<Rightarrow> lb_state \<Rightarrow> error + migration_plan" where
  "loop c s =
     (if length (plan s) < batch_size c \<and> nodes_by_load s \<noteq> [] then
        (case loop_body c s of
           Stop \<Rightarrow> Inr (plan s)
         | Fault e \<Rightarrow> Inl e
         | Next s' \<Rightarrow> loop c s')
      else Inr (plan s))"
  by pat_completeness auto
termination
  by (relation "measure (\<lambda>(c, s). loop_measure s)") (auto simp: loop_measure_loop_body)

declare loop.simps [simp del]

subsection \<open>The per-DC planner\<close>

text \<open>Phases A and B (lines 151 to 178): the value of \<^verbatim>\<open>nodes\<close> when the tablet load has been
  counted, or the error thrown.\<close>

definition compute_node_load :: "token_metadata \<Rightarrow> string \<Rightarrow> error + node_loads" where
  "compute_node_load t dcname =
     (case select_nodes dcname (for_each_node (get_topology t)) Map.empty of
        Inl e \<Rightarrow> Inl e
      | Inr nodes0 \<Rightarrow> compute_tablet_load (tablets t) nodes0)"

text \<open>Lines 144 to 285: everything before the selection loop. \<open>Balanced\<close> and \<open>Pending\<close> are
  the two early returns with an empty plan, \<open>Ready\<close> carries what the loop starts from.\<close>

datatype prepared = Balanced | Pending | Ready lb_context lb_state

definition prepare :: "token_metadata \<Rightarrow> string \<Rightarrow> error + prepared" where
  "prepare t dcname =
     (case compute_node_load t dcname of
        Inl e \<Rightarrow> Inl e
      | Inr nodes1 \<Rightarrow>
     (case compute_imbalance (node_keys dcname (get_topology t)) (nodes1, 0, 0, None) of
        (nodes2, max_load, min_load, min_load_node) \<Rightarrow>
          if max_load = min_load then Inr Balanced
          else
     (case min_load_node of
        None \<Rightarrow> Inl Undefined_Behaviour
      | Some tgt \<Rightarrow>
     (case find_node (get_topology t) tgt of
        None \<Rightarrow> Inl Undefined_Behaviour
      | Some tgt_node \<Rightarrow>
     (case compute_shard_load (all_tables (tablets t)) nodes2 of
        Inl e \<Rightarrow> Inl e
      | Inr None \<Rightarrow> Inr Pending
      | Inr (Some nodes3) \<Rightarrow>
          (let nodes4 = make_shard_heaps (node_keys dcname (get_topology t)) nodes3
           in Inr (Ready
                \<lparr>tm = t, dc_name = dcname, target = tgt, target_node = tgt_node,
                 batch_size = get_shard_count tgt_node\<rparr>
                \<lparr>nodes = nodes4,
                 nodes_by_load = make_heap (nodes_cmp nodes4) (node_keys dcname (get_topology t)),
                 target_load = populate t tgt,
                 plan = [],
                 max_off_candidate_load = 0\<rparr>)))))))"

text \<open>\<^verbatim>\<open>load_balancer::make_plan(sstring dc)\<close>.\<close>

definition make_plan_dc :: "token_metadata \<Rightarrow> string \<Rightarrow> error + migration_plan" where
  "make_plan_dc t dcname =
     (case prepare t dcname of
        Inl e \<Rightarrow> Inl e
      | Inr Balanced \<Rightarrow> Inr []
      | Inr Pending \<Rightarrow> Inr []
      | Inr (Ready c s) \<Rightarrow> loop c s)"

subsection \<open>Iterations of the loop and the plan they build\<close>

text \<open>The state after \<open>n\<close> complete iterations of the loop, when it runs that many.\<close>

fun after_iterations :: "nat \<Rightarrow> lb_context \<Rightarrow> lb_state \<Rightarrow> lb_state option" where
  "after_iterations 0 c s = Some s"
| "after_iterations (Suc n) c s =
     (if length (plan s) < batch_size c \<and> nodes_by_load s \<noteq> [] then
        (case loop_body c s of Next s' \<Rightarrow> after_iterations n c s' | _ \<Rightarrow> None)
      else None)"

lemma after_iterations_measure:
  "after_iterations n c s = Some s' \<Longrightarrow> n + loop_measure s' \<le> loop_measure s"
proof (induction n arbitrary: s)
  case 0
  then show ?case by simp
next
  case (Suc n)
  from Suc.prems obtain s1 where g: "nodes_by_load s \<noteq> []" and b: "loop_body c s = Next s1"
    and r: "after_iterations n c s1 = Some s'"
    by (auto split: if_splits outcome.splits)
  from Suc.IH[OF r] loop_measure_loop_body[OF b g] show ?case by simp
qed

lemma loop_stops:
  "\<exists>k s'. k \<le> loop_measure s \<and> after_iterations k c s = Some s' \<and>
          after_iterations (Suc k) c s = None \<and>
          (loop c s = Inr (plan s') \<or> (\<exists>e. loop_body c s' = Fault e \<and> loop c s = Inl e))"
proof (induction c s rule: loop.induct)
  case (1 c s)
  show ?case
  proof (cases "length (plan s) < batch_size c \<and> nodes_by_load s \<noteq> []")
    case False
    then have "after_iterations 0 c s = Some s \<and> after_iterations (Suc 0) c s = None \<and> loop c s = Inr (plan s)"
      by (auto simp: loop.simps[of c s])
    then show ?thesis by blast
  next
    case g: True
    show ?thesis
    proof (cases "loop_body c s")
      case Stop
      with g have "after_iterations 0 c s = Some s \<and> after_iterations (Suc 0) c s = None \<and> loop c s = Inr (plan s)"
        by (auto simp: loop.simps[of c s])
      then show ?thesis by blast
    next
      case (Fault e)
      with g have "after_iterations 0 c s = Some s \<and> after_iterations (Suc 0) c s = None \<and>
          loop_body c s = Fault e \<and> loop c s = Inl e"
        by (auto simp: loop.simps[of c s])
      then show ?thesis by blast
    next
      case (Next s1)
      from "1.IH"[OF g Next] obtain k s' where k: "k \<le> loop_measure s1"
        "after_iterations k c s1 = Some s'" "after_iterations (Suc k) c s1 = None"
        "loop c s1 = Inr (plan s') \<or> (\<exists>e. loop_body c s' = Fault e \<and> loop c s1 = Inl e)"
        by blast
      have lt: "loop_measure s1 < loop_measure s"
        using loop_measure_loop_body[OF Next] g by simp
      have l: "loop c s = loop c s1" using g Next by (simp add: loop.simps[of c s])
      have "Suc k \<le> loop_measure s" using k(1) lt by simp
      moreover have "after_iterations (Suc k) c s = Some s'" using g Next k(2) by simp
      moreover have "after_iterations (Suc (Suc k)) c s = None" using g Next k(3) by simp
      ultimately show ?thesis using k(4) l by metis
    qed
  qed
qed


text \<open>The replica list of a tablet in the snapshot.\<close>

definition tablet_replicas :: "token_metadata \<Rightarrow> global_tablet_id \<Rightarrow> tablet_replica list option" where
  "tablet_replicas t g =
     (case get_tablet_map (tablets t) (table g) of
        Inl e \<Rightarrow> None
      | Inr tmap \<Rightarrow>
          (case get_tablet_info tmap (tablet g) of Inl e \<Rightarrow> None | Inr ti \<Rightarrow> Some (replicas ti)))"

text \<open>The number of replicas of a list that sit in rack \<open>r\<close> of the datacenter: the histogram
  that lines 362 to 366 build, told from the snapshot.\<close>

definition in_rack :: "topology \<Rightarrow> string \<Rightarrow> string \<Rightarrow> tablet_replica \<Rightarrow> bool" where
  "in_rack topo dcname r rp =
     (case find_node topo (host rp) of
        None \<Rightarrow> False
      | Some n \<Rightarrow> dc (dc_rack n) = dcname \<and> rack (dc_rack n) = r)"

definition rack_count :: "topology \<Rightarrow> string \<Rightarrow> tablet_replica list \<Rightarrow> string \<Rightarrow> int" where
  "rack_count topo dcname rs r = int (length (filter (in_rack topo dcname r) rs))"

text \<open>What is known of a migration when the iteration that starts in \<open>s\<close> appends it.\<close>

definition emits :: "lb_context \<Rightarrow> lb_state \<Rightarrow> tablet_migration_info \<Rightarrow> bool" where
  "emits c s m =
     (let src_host = last (pop_heap (nodes_cmp (nodes s)) (nodes_by_load s));
          src_node_info = node_at (nodes s) src_host;
          target_info = node_at (nodes s) (target c)
      in host (src m) = src_host \<and> host (dst m) = target c \<and>
         avg_load target_info < avg_load src_node_info \<and>
         get_avg_load target_info (tablet_count target_info + 1)
           \<le> get_avg_load src_node_info (dec64 (tablet_count src_node_info)) \<and>
         shard (src m) < length (shards src_node_info) \<and>
         mtablet m \<in> set (candidates (shards src_node_info ! shard (src m))) \<and>
         check_constraints c src_host (mtablet m) = Inr True)"

lemma plan_push_node [simp]: "plan (push_back_node_candidate s) = plan s"
  by (simp add: push_back_node_candidate_def)

lemma plan_push_shard [simp]: "plan (push_back_shard_candidate h s) = plan s"
  by (simp add: push_back_shard_candidate_def Let_def)

lemma plan_emit:
  "plan (emit c h sh g s) =
     plan s @ [\<lparr>mtablet = g, src = \<lparr>host = h, shard = sh\<rparr>,
                dst = \<lparr>host = target c, shard = fst (next_shard (target_load s))\<rparr>\<rparr>]"
  by (simp add: emit_def Let_def split: prod.splits)

lemma select_candidate_plan:
  assumes "select_candidate c h sh s = Next s'"
    and "candidates (shards (node_at (nodes s) h) ! sh) \<noteq> []"
  shows "plan s' = plan s \<or>
     (\<exists>g k. g \<in> set (candidates (shards (node_at (nodes s) h) ! sh)) \<and>
        check_constraints c h g = Inr True \<and>
        plan s' = plan s @ [\<lparr>mtablet = g, src = \<lparr>host = h, shard = sh\<rparr>,
                             dst = \<lparr>host = target c, shard = k\<rparr>\<rparr>])"
  using assms unfolding select_candidate_def Let_def
  by (auto split: sum.splits bool.splits simp: plan_emit)

lemma select_shard_plan:
  assumes "select_shard c h s = Next s'"
  shows "plan s' = plan s \<or>
     (\<exists>g k sh. sh < length (shards (node_at (nodes s) h)) \<and>
        g \<in> set (candidates (shards (node_at (nodes s) h) ! sh)) \<and>
        check_constraints c h g = Inr True \<and>
        plan s' = plan s @ [\<lparr>mtablet = g, src = \<lparr>host = h, shard = sh\<rparr>,
                             dst = \<lparr>host = target c, shard = k\<rparr>\<rparr>])"
proof -
  define n where "n = node_at (nodes s) h"
  define sbl where "sbl = pop_heap (shards_by_load_cmp n) (shards_by_load n)"
  define sb where "sb = s\<lparr>nodes := (nodes s)(h \<mapsto> n\<lparr>shards_by_load := sbl\<rparr>)\<rparr>"
  have e: "select_shard c h s =
     (if last sbl \<ge> length (shards n) then Fault Undefined_Behaviour
      else if candidates (shards n ! last sbl) = [] then
        Next (push_back_node_candidate (s\<lparr>nodes := (nodes s)(h \<mapsto> n\<lparr>shards_by_load := butlast sbl\<rparr>)\<rparr>))
      else select_candidate c h (last sbl) sb)"
    unfolding select_shard_def Let_def by (simp only: n_def sbl_def sb_def)
  have sb: "shards (node_at (nodes sb) h) = shards n" "plan sb = plan s"
    by (simp_all add: sb_def node_at_def)
  show ?thesis
  proof (cases "candidates (shards n ! last sbl) = []")
    case True
    with assms show ?thesis unfolding e by (auto split: if_splits)
  next
    case False
    with assms have lt: "last sbl < length (shards n)"
      and sc: "select_candidate c h (last sbl) sb = Next s'"
      unfolding e by (auto split: if_splits)
    from select_candidate_plan[OF sc] False lt show ?thesis
      unfolding sb n_def[symmetric] by blast
  qed
qed

lemma loop_body_plan:
  assumes "loop_body c s = Next s'"
  shows "plan s' = plan s \<or> (\<exists>m. plan s' = plan s @ [m] \<and> emits c s m)"
proof -
  define nbl where "nbl = pop_heap (nodes_cmp (nodes s)) (nodes_by_load s)"
  define h where "h = last nbl"
  define sb where "sb = s\<lparr>nodes_by_load := nbl\<rparr>"
  have sb: "nodes sb = nodes s" "plan sb = plan s" by (simp_all add: sb_def)
  from assms have "plan s' = plan s \<or>
     (avg_load (node_at (nodes s) (target c)) < avg_load (node_at (nodes s) h) \<and>
      get_avg_load (node_at (nodes s) (target c)) (tablet_count (node_at (nodes s) (target c)) + 1)
         \<le> get_avg_load (node_at (nodes s) h) (dec64 (tablet_count (node_at (nodes s) h))) \<and>
      select_shard c h sb = Next s')"
    unfolding loop_body_def Let_def nbl_def[symmetric] h_def[symmetric] sb_def[symmetric]
    by (auto split: if_splits)
  then show ?thesis
  proof
    assume "plan s' = plan s" then show ?thesis by simp
  next
    assume a: "avg_load (node_at (nodes s) (target c)) < avg_load (node_at (nodes s) h) \<and>
      get_avg_load (node_at (nodes s) (target c)) (tablet_count (node_at (nodes s) (target c)) + 1)
         \<le> get_avg_load (node_at (nodes s) h) (dec64 (tablet_count (node_at (nodes s) h))) \<and>
      select_shard c h sb = Next s'"
    then have "select_shard c h sb = Next s'" by simp
    from select_shard_plan[OF this] show ?thesis
    proof
      assume "plan s' = plan sb" then show ?thesis by (simp add: sb)
    next
      assume "\<exists>g k sh. sh < length (shards (node_at (nodes sb) h)) \<and>
        g \<in> set (candidates (shards (node_at (nodes sb) h) ! sh)) \<and>
        check_constraints c h g = Inr True \<and>
        plan s' = plan sb @ [\<lparr>mtablet = g, src = \<lparr>host = h, shard = sh\<rparr>,
                             dst = \<lparr>host = target c, shard = k\<rparr>\<rparr>]"
      then obtain g k sh where p: "sh < length (shards (node_at (nodes s) h))"
        "g \<in> set (candidates (shards (node_at (nodes s) h) ! sh))"
        "check_constraints c h g = Inr True"
        "plan s' = plan s @ [\<lparr>mtablet = g, src = \<lparr>host = h, shard = sh\<rparr>,
                             dst = \<lparr>host = target c, shard = k\<rparr>\<rparr>]"
        unfolding sb by blast
      have "emits c s \<lparr>mtablet = g, src = \<lparr>host = h, shard = sh\<rparr>,
                             dst = \<lparr>host = target c, shard = k\<rparr>\<rparr>"
        using a p(1,2,3) by (simp add: emits_def Let_def h_def nbl_def)
      with p(4) show ?thesis by blast
    qed
  qed
qed

lemma loop_plan_invariant:
  assumes "\<And>s m. emits c s m \<Longrightarrow> P m"
    and "\<forall>m\<in>set (plan s). P m" and "loop c s = Inr p"
  shows "\<forall>m\<in>set p. P m"
  using assms
proof (induction c s rule: loop.induct)
  case (1 c s)
  note step = "1.prems"(1)
  show ?case
  proof (cases "length (plan s) < batch_size c \<and> nodes_by_load s \<noteq> []")
    case False
    with "1.prems"(2,3) show ?thesis by (auto simp: loop.simps[of c s])
  next
    case g: True
    show ?thesis
    proof (cases "loop_body c s")
      case Stop
      with g "1.prems"(2,3) show ?thesis by (auto simp: loop.simps[of c s])
    next
      case (Fault e)
      with g "1.prems"(2,3) show ?thesis by (auto simp: loop.simps[of c s])
    next
      case (Next s1)
      have a: "\<forall>m\<in>set (plan s1). P m"
        using loop_body_plan[OF Next] "1.prems"(2) step by auto
      have b: "loop c s1 = Inr p" using g Next "1.prems"(3) by (simp add: loop.simps[of c s])
      show ?thesis
      proof (rule "1.IH"[OF g Next])
        show "\<And>s m. emits c s m \<Longrightarrow> P m" by (rule step)
      qed (rule a, rule b)
    qed
  qed
qed


lemma scan_replicas_no_target:
  "scan_replicas topo d tgt sr rs rl = Inr (False, rl') \<Longrightarrow> tgt \<notin> host ` set rs"
  by (induction rs arbitrary: rl) (auto split: if_splits sum.splits)

lemma rack_load_incr_keys: "fst ` set (rack_load_incr r rl) = insert r (fst ` set rl)"
proof (induction rl)
  case Nil
  then show ?case by simp
next
  case (Cons kv rl)
  obtain k v where kv: "kv = (k, v)" by (cases kv)
  show ?case using Cons.IH by (cases "k = r") (simp_all add: kv insert_commute)
qed

lemma rack_load_incr_distinct:
  "distinct (map fst rl) \<Longrightarrow> distinct (map fst (rack_load_incr r rl))"
  by (induction rl) (auto simp: rack_load_incr_keys split: if_splits)

lemma rack_load_at_incr:
  "rack_load_at (rack_load_incr r rl) r' = rack_load_at rl r' + (if r' = r then 1 else 0)"
  by (induction rl) (auto simp: rack_load_at_def)

lemma rack_count_Cons:
  "rack_count topo d (rp # rs) r = (if in_rack topo d r rp then 1 else 0) + rack_count topo d rs r"
  by (simp add: rack_count_def)

lemma scan_replicas_rack_load:
  assumes "scan_replicas topo d tgt False rs rl = Inr (False, rl')" and "distinct (map fst rl)"
  shows "distinct (map fst rl') \<and> (\<forall>r. rack_load_at rl' r = rack_load_at rl r + rack_count topo d rs r)"
  using assms
proof (induction rs arbitrary: rl)
  case Nil
  then show ?case by (simp add: rack_count_def)
next
  case (Cons rp rs)
  from Cons.prems(1) obtain n where n: "get_node topo (host rp) = Inr n"
    and rest: "scan_replicas topo d tgt False rs
        (if dc (dc_rack n) = d then rack_load_incr (rack (dc_rack n)) rl else rl) = Inr (False, rl')"
    by (auto split: if_splits sum.splits)
  have f: "find_node topo (host rp) = Some n"
    using n by (auto simp: get_node_def split: option.splits)
  have d: "distinct (map fst (if dc (dc_rack n) = d then rack_load_incr (rack (dc_rack n)) rl else rl))"
    using Cons.prems(2) by (simp add: rack_load_incr_distinct)
  from Cons.IH[OF rest d] show ?case
    by (auto simp: rack_count_Cons in_rack_def f rack_load_at_incr)
qed

lemma fold_max_ge: "(a::int) \<le> fold max xs a"
  by (induction xs arbitrary: a) (auto intro: order_trans[OF max.cobounded2])

lemma fold_max_in: "fold max xs (a::int) = a \<or> fold max xs a \<in> set xs"
proof (induction xs arbitrary: a)
  case Nil
  then show ?case by simp
next
  case (Cons x xs)
  from Cons.IH[of "max x a"] show ?case by (auto simp: max_def split: if_splits)
qed

lemma max_rack_load_attained:
  assumes "max_rack_load rl = Inr mx" and "distinct (map fst rl)"
  shows "\<exists>r. rack_load_at rl r = mx"
proof -
  from assms(1) obtain kv kvs where rl: "rl = kv # kvs" and mx: "mx = fold max (map snd kvs) (snd kv)"
    by (auto simp: max_rack_load_def split: list.splits)
  from fold_max_in[of "map snd kvs" "snd kv"] mx have "mx \<in> snd ` set rl"
    by (auto simp: rl)
  then obtain k where "(k, mx) \<in> set rl" by force
  with assms(2) have "map_of rl k = Some mx" by simp
  then have "rack_load_at rl k = mx" by (simp add: rack_load_at_def)
  then show ?thesis by blast
qed

lemma check_constraints_True:
  assumes "check_constraints c h g = Inr True"
  shows "\<exists>rs sn. tablet_replicas (tm c) g = Some rs \<and> target c \<notin> host ` set rs \<and>
           find_node (get_topology (tm c)) h = Some sn \<and>
           (rack (dc_rack (target_node c)) \<noteq> rack (dc_rack sn) \<longrightarrow>
              (\<exists>r. rack_count (get_topology (tm c)) (dc_name c) rs (rack (dc_rack (target_node c))) + 1
                     \<le> rack_count (get_topology (tm c)) (dc_name c) rs r))"
proof -
  from assms obtain sn tmap ti hr rl where
    sn: "get_node (get_topology (tm c)) h = Inr sn"
    and tmap: "get_tablet_map (tablets (tm c)) (table g) = Inr tmap"
    and ti: "get_tablet_info tmap (tablet g) = Inr ti"
    and sc: "scan_replicas (get_topology (tm c)) (dc_name c) (target c)
               (rack (dc_rack (target_node c)) = rack (dc_rack sn)) (replicas ti) [] = Inr (hr, rl)"
    unfolding check_constraints_def Let_def by (auto split: sum.splits prod.splits)
  from assms sn tmap ti sc have hr: "\<not> hr"
    unfolding check_constraints_def Let_def by (auto split: if_splits)
  have f: "find_node (get_topology (tm c)) h = Some sn"
    using sn by (auto simp: get_node_def split: option.splits)
  have rs: "tablet_replicas (tm c) g = Some (replicas ti)"
    by (simp add: tablet_replicas_def tmap ti)
  from sc hr have "scan_replicas (get_topology (tm c)) (dc_name c) (target c)
               (rack (dc_rack (target_node c)) = rack (dc_rack sn)) (replicas ti) [] = Inr (False, rl)"
    by simp
  then have nt: "target c \<notin> host ` set (replicas ti)"
    by (rule scan_replicas_no_target)
  have "\<exists>r. rack_count (get_topology (tm c)) (dc_name c) (replicas ti) (rack (dc_rack (target_node c))) + 1
                     \<le> rack_count (get_topology (tm c)) (dc_name c) (replicas ti) r"
    if diff: "rack (dc_rack (target_node c)) \<noteq> rack (dc_rack sn)"
  proof -
    from assms sn tmap ti sc hr diff obtain mx where mx: "max_rack_load rl = Inr mx"
      and le: "rack_load_at rl (rack (dc_rack (target_node c))) + 1 \<le> mx"
      unfolding check_constraints_def Let_def by (auto split: if_splits sum.splits)
    from sc hr diff have sc': "scan_replicas (get_topology (tm c)) (dc_name c) (target c) False (replicas ti) [] = Inr (False, rl)"
      by simp
    from scan_replicas_rack_load[OF sc'] have d: "distinct (map fst rl)"
      and eq: "\<And>r. rack_load_at rl r = rack_count (get_topology (tm c)) (dc_name c) (replicas ti) r"
      by (auto simp: rack_load_at_def)
    from max_rack_load_attained[OF mx d] obtain r where "rack_load_at rl r = mx" by blast
    with le show ?thesis unfolding eq by blast
  qed
  with f rs nt show ?thesis by blast
qed


lemma prepare_Ready:
  assumes "prepare t d = Inr (Ready c s)"
  shows "tm c = t" "dc_name c = d" "find_node (get_topology t) (target c) = Some (target_node c)"
    "batch_size c = get_shard_count (target_node c)" "plan s = []"
  using assms unfolding prepare_def Let_def
  by (auto split: sum.splits prod.splits option.splits if_splits)

lemma make_plan_dc_cases:
  assumes "make_plan_dc t d = Inr p"
  shows "p = [] \<or> (\<exists>c s. prepare t d = Inr (Ready c s) \<and> loop c s = Inr p)"
  using assms unfolding make_plan_dc_def
  by (auto split: sum.splits prepared.splits)

lemma loop_length:
  "length (plan s) \<le> batch_size c \<Longrightarrow> loop c s = Inr p \<Longrightarrow> length p \<le> batch_size c"
proof (induction c s rule: loop.induct)
  case (1 c s)
  show ?case
  proof (cases "length (plan s) < batch_size c \<and> nodes_by_load s \<noteq> []")
    case False
    with "1.prems" show ?thesis by (auto simp: loop.simps[of c s])
  next
    case g: True
    show ?thesis
    proof (cases "loop_body c s")
      case Stop
      with g "1.prems" show ?thesis by (auto simp: loop.simps[of c s])
    next
      case (Fault e)
      with g "1.prems" show ?thesis by (auto simp: loop.simps[of c s])
    next
      case (Next s1)
      have "length (plan s1) \<le> batch_size c"
        using loop_body_plan[OF Next] g by auto
      moreover have "loop c s1 = Inr p" using g Next "1.prems"(2) by (simp add: loop.simps[of c s])
      ultimately show ?thesis using "1.IH"[OF g Next] by blast
    qed
  qed
qed

subsection \<open>What the phases before the loop compute\<close>

definition selected :: "string \<Rightarrow> node \<Rightarrow> bool" where
  "selected dcname n \<longleftrightarrow> get_state n = normal \<and> dc (dc_rack n) = dcname"

definition fresh_node_load :: "node \<Rightarrow> node_load" where
  "fresh_node_load n =
     \<lparr>shard_count = get_shard_count n, tablet_count = 0, avg_load = 0, shards_by_load = [],
      shards = replicate (get_shard_count n) empty_shard_load\<rparr>"

lemma node_at_simps [simp]:
  "ns h = Some n \<Longrightarrow> node_at ns h = n"
  "ns h = None \<Longrightarrow> node_at ns h = empty_node_load"
  "node_at (ns(h \<mapsto> n)) h = n"
  "h' \<noteq> h \<Longrightarrow> node_at (ns(h \<mapsto> n)) h' = node_at ns h'"
  by (simp_all add: node_at_def)

lemma select_nodes_Inr:
  assumes "select_nodes d al ns = Inr ns'" and "distinct (map fst al)" and "fst ` set al \<inter> dom ns = {}"
  shows "ns' h = (case map_of al h of
                    Some n \<Rightarrow> if selected d n then Some (fresh_node_load n) else ns h
                  | None \<Rightarrow> ns h)"
    and "\<forall>(h, n)\<in>set al. selected d n \<longrightarrow> get_shard_count n \<noteq> 0"
  using assms
proof (induction al arbitrary: ns)
  case Nil
  { case 1 then show ?case by simp }
  { case 2 then show ?case by simp }
next
  case (Cons a al)
  obtain k n where a: "a = (k, n)" by (cases a)
  { case 1
    show ?case
    proof (cases "selected d n")
      case False
      with 1(1) have r: "select_nodes d al ns = Inr ns'" by (auto simp: a selected_def)
      have "ns' h = (case map_of al h of
                    Some n \<Rightarrow> if selected d n then Some (fresh_node_load n) else ns h
                  | None \<Rightarrow> ns h)"
      proof (rule Cons.IH(1)[OF r])
        show "distinct (map fst al)" using 1(2) by (simp add: a)
        show "fst ` set al \<inter> dom ns = {}" using 1(3) by (auto simp: a)
      qed
      moreover have "map_of al k = None" using 1(2) by (simp add: a map_of_eq_None_iff)
      ultimately show ?thesis using False
        by (cases "h = k") (auto simp: a split: option.splits)
    next
      case True
      have em: "node_at ns k = empty_node_load" using 1(3) by (auto simp: a node_at_def split: option.splits)
      from 1(1) True have nz: "get_shard_count n \<noteq> 0"
        and r: "select_nodes d al (ns(k \<mapsto> fresh_node_load n)) = Inr ns'"
        by (auto simp: a selected_def em Let_def empty_node_load_def resize_def fresh_node_load_def
            split: if_splits)
      have "ns' h = (case map_of al h of
                    Some n' \<Rightarrow> if selected d n' then Some (fresh_node_load n') else (ns(k \<mapsto> fresh_node_load n)) h
                  | None \<Rightarrow> (ns(k \<mapsto> fresh_node_load n)) h)"
      proof (rule Cons.IH(1)[OF r])
        show "distinct (map fst al)" using 1(2) by (simp add: a)
        show "fst ` set al \<inter> dom (ns(k \<mapsto> fresh_node_load n)) = {}"
          using 1(2,3) by (auto simp: a)
      qed
      moreover have "map_of al k = None" using 1(2) by (simp add: a map_of_eq_None_iff)
      ultimately show ?thesis using True
        by (cases "h = k") (auto simp: a split: option.splits)
    qed }
  { case 2
    show ?case
    proof (cases "selected d n")
      case False
      with 2(1) have r: "select_nodes d al ns = Inr ns'" by (auto simp: a selected_def)
      have "\<forall>(h, n)\<in>set al. selected d n \<longrightarrow> get_shard_count n \<noteq> 0"
      proof (rule Cons.IH(2)[OF r])
        show "distinct (map fst al)" using 2(2) by (simp add: a)
        show "fst ` set al \<inter> dom ns = {}" using 2(3) by (auto simp: a)
      qed
      with False show ?thesis by (auto simp: a)
    next
      case True
      have em: "node_at ns k = empty_node_load" using 2(3) by (auto simp: a node_at_def split: option.splits)
      from 2(1) True have nz: "get_shard_count n \<noteq> 0"
        and r: "select_nodes d al (ns(k \<mapsto> fresh_node_load n)) = Inr ns'"
        by (auto simp: a selected_def em Let_def empty_node_load_def resize_def fresh_node_load_def
            split: if_splits)
      have "\<forall>(h, n)\<in>set al. selected d n \<longrightarrow> get_shard_count n \<noteq> 0"
      proof (rule Cons.IH(2)[OF r])
        show "distinct (map fst al)" using 2(2) by (simp add: a)
        show "fst ` set al \<inter> dom (ns(k \<mapsto> fresh_node_load n)) = {}"
          using 2(2,3) by (auto simp: a)
      qed
      with nz show ?thesis by (auto simp: a)
    qed }
qed

lemma select_nodes_Inl:
  "select_nodes d al ns = Inl e \<Longrightarrow> \<exists>(h, n)\<in>set al. selected d n \<and> get_shard_count n = 0"
  by (induction d al ns rule: select_nodes.induct)
     (auto simp: selected_def Let_def split: if_splits)

lemma select_nodes_zero:
  "(h, n) \<in> set al \<Longrightarrow> selected d n \<Longrightarrow> get_shard_count n = 0 \<Longrightarrow> \<exists>e. select_nodes d al ns = Inl e"
proof (induction al arbitrary: ns)
  case Nil
  then show ?case by simp
next
  case (Cons a al)
  obtain k m where a: "a = (k, m)" by (cases a)
  show ?case
  proof (cases "(h, n) = (k, m)")
    case True
    with Cons.prems show ?thesis by (simp add: a selected_def Let_def)
  next
    case False
    with Cons.prems have "(h, n) \<in> set al" by (auto simp: a)
    from Cons.IH[OF this Cons.prems(2,3)] show ?thesis
      by (simp add: a Let_def)
  qed
qed


definition table_replicas :: "table_id \<times> tablet_map \<Rightarrow> (global_tablet_id \<times> tablet_replica) list" where
  "table_replicas tt =
     concat (map (\<lambda>(tid, ti). map (Pair \<lparr>table = fst tt, tablet = tid\<rparr>) (replicas ti))
                 (for_each_tablet (snd tt)))"

definition tagged_replicas :: "(table_id \<times> tablet_map) list \<Rightarrow> (global_tablet_id \<times> tablet_replica) list" where
  "tagged_replicas tabs = concat (map table_replicas tabs)"

definition all_replicas :: "token_metadata \<Rightarrow> (global_tablet_id \<times> tablet_replica) list" where
  "all_replicas t = tagged_replicas (all_tables (tablets t))"

lemma fold_err_append:
  "fold_err f (xs @ ys) s = (case fold_err f xs s of Inl e \<Rightarrow> Inl e | Inr s' \<Rightarrow> fold_err f ys s')"
  by (induction xs arbitrary: s) (auto split: sum.splits)

lemma fold_err_concat: "fold_err f (concat xss) s = fold_err (\<lambda>xs. fold_err f xs) xss s"
  by (induction xss arbitrary: s) (auto simp: fold_err_append split: sum.splits)

lemma fold_err_map: "fold_err f (map g xs) s = fold_err (\<lambda>x. f (g x)) xs s"
  by (induction xs arbitrary: s) (auto split: sum.splits)

lemma fold_err_cong:
  "(\<And>x s. x \<in> set xs \<Longrightarrow> f x s = g x s) \<Longrightarrow> fold_err f xs s = fold_err g xs s"
  by (induction xs arbitrary: s) (auto split: sum.splits)

lemma fold_err_table:
  "fold_err (\<lambda>(g, r). f g r) (table_replicas (tbl, tmap)) s =
   fold_err (\<lambda>(tid, ti). fold_err (f \<lparr>table = tbl, tablet = tid\<rparr>) (replicas ti)) (for_each_tablet tmap) s"
  unfolding table_replicas_def fold_err_concat fold_err_map fst_conv snd_conv
  by (intro fold_err_cong) (auto simp: fold_err_map)

lemma fold_err_tagged:
  "fold_err (\<lambda>(g, r). f g r) (tagged_replicas tabs) s =
   fold_err (\<lambda>(tbl, tmap). fold_err (\<lambda>(tid, ti). fold_err (f \<lparr>table = tbl, tablet = tid\<rparr>) (replicas ti))
                                       (for_each_tablet tmap)) tabs s"
  unfolding tagged_replicas_def fold_err_concat fold_err_map
  by (intro fold_err_cong) (auto simp: fold_err_table)

lemma compute_tablet_load_flat:
  "compute_tablet_load tmeta ns = fold_err (\<lambda>(g, r). count_replica r) (tagged_replicas (all_tables tmeta)) ns"
  unfolding compute_tablet_load_def fold_err_tagged ..

definition replicas_on :: "host_id \<Rightarrow> (global_tablet_id \<times> tablet_replica) list \<Rightarrow> nat" where
  "replicas_on h xs = length (filter (\<lambda>(g, r). host r = h) xs)"

lemma replicas_on_simps [simp]:
  "replicas_on h [] = 0"
  "replicas_on h ((g, r) # xs) = (if host r = h then 1 else 0) + replicas_on h xs"
  by (simp_all add: replicas_on_def)

lemma count_replica_Inr:
  assumes "count_replica r ns = Inr ns1"
  shows "ns1 h = map_option (\<lambda>n. n\<lparr>tablet_count := tablet_count n + (if host r = h then 1 else 0)\<rparr>) (ns h)"
    and "\<And>n. ns (host r) = Some n \<Longrightarrow> shard r < shard_count n"
  using assms unfolding count_replica_def Let_def
  by (auto split: option.splits if_splits simp: option.map_ident)

lemma count_replica_Inl:
  "count_replica r ns = Inl e \<Longrightarrow> \<exists>n. ns (host r) = Some n \<and> shard_count n \<le> shard r"
  unfolding count_replica_def Let_def by (auto split: option.splits if_splits)

lemma count_fold_Inr:
  assumes "fold_err (\<lambda>(g, r). count_replica r) xs ns = Inr ns'"
  shows "ns' h = map_option (\<lambda>n. n\<lparr>tablet_count := tablet_count n + replicas_on h xs\<rparr>) (ns h)"
    and "\<forall>(g, r)\<in>set xs. \<forall>n. ns (host r) = Some n \<longrightarrow> shard r < shard_count n"
  using assms
proof (induction xs arbitrary: ns)
  case Nil
  { case 1 then show ?case by (cases "ns h") simp_all }
  { case 2 then show ?case by simp }
next
  case (Cons x xs)
  obtain g r where x: "x = (g, r)" by (cases x)
  { case 1
    then obtain ns1 where s: "count_replica r ns = Inr ns1"
      and f: "fold_err (\<lambda>(g, r). count_replica r) xs ns1 = Inr ns'"
      by (auto simp: x split: sum.splits)
    show ?case
      unfolding Cons.IH(1)[OF f] count_replica_Inr(1)[OF s]
      by (cases "ns h") (simp_all add: x) }
  { case 2
    then obtain ns1 where s: "count_replica r ns = Inr ns1"
      and f: "fold_err (\<lambda>(g, r). count_replica r) xs ns1 = Inr ns'"
      by (auto simp: x split: sum.splits)
    have "shard r' < shard_count n" if "(g', r') \<in> set xs" "ns (host r') = Some n" for g' r' n
    proof -
      from that(2) have "ns1 (host r') = Some (n\<lparr>tablet_count := tablet_count n + (if host r = host r' then 1 else 0)\<rparr>)"
        by (simp add: count_replica_Inr(1)[OF s])
      with Cons.IH(2)[OF f] that(1) show ?thesis by fastforce
    qed
    with count_replica_Inr(2)[OF s] show ?case by (auto simp: x) }
qed

lemma count_fold_Inl:
  assumes "fold_err (\<lambda>(g, r). count_replica r) xs ns = Inl e"
  shows "\<exists>(g, r)\<in>set xs. \<exists>n. ns (host r) = Some n \<and> shard_count n \<le> shard r"
  using assms
proof (induction xs arbitrary: ns)
  case Nil
  then show ?case by simp
next
  case (Cons x xs)
  obtain g r where x: "x = (g, r)" by (cases x)
  show ?case
  proof (cases "count_replica r ns")
    case (Inl e')
    from count_replica_Inl[OF this] show ?thesis by (auto simp: x)
  next
    case (Inr ns1)
    with Cons.prems have f: "fold_err (\<lambda>(g, r). count_replica r) xs ns1 = Inl e" by (simp add: x)
    from Cons.IH[OF f] obtain g' r' n' where m: "(g', r') \<in> set xs" "ns1 (host r') = Some n'"
      "shard_count n' \<le> shard r'" by auto
    from m(2) obtain n where "ns (host r') = Some n" "shard_count n = shard_count n'"
      unfolding count_replica_Inr(1)[OF Inr] by auto
    with m(1,3) have "\<exists>n. ns (host r') = Some n \<and> shard_count n \<le> shard r'" by auto
    with m(1) show ?thesis unfolding x by (intro bexI[of _ "(g', r')"]) auto
  qed
qed


definition load_of :: "node_loads \<Rightarrow> host_id \<Rightarrow> load_type" where
  "load_of ns h = get_avg_load (node_at ns h) (tablet_count (node_at ns h))"

lemma get_avg_load_update [simp]: "get_avg_load (update n) k = get_avg_load n k"
  by (simp add: get_avg_load_def)

lemma update_idem [simp]: "update (update n) = update n"
  by (simp add: update_def get_avg_load_def)

lemma load_of_upd [simp]: "load_of (ns(a \<mapsto> update (node_at ns a))) h = load_of ns h"
  by (cases "h = a") (simp_all add: load_of_def)

lemma load_of_nonneg: "0 \<le> load_of ns h"
  by (simp add: load_of_def get_avg_load_def)

lemma compute_imbalance_nodes:
  "fst (compute_imbalance hs (ns, mx, mn, mnode)) h =
     (if h \<in> set hs then Some (update (node_at ns h)) else ns h)"
proof (induction hs arbitrary: ns mx mn mnode)
  case Nil
  then show ?case by simp
next
  case (Cons a hs)
  show ?case
    unfolding compute_imbalance.simps Let_def Cons.IH
    by (cases "h = a") simp_all
qed

lemma compute_imbalance_none:
  "snd (snd (snd (compute_imbalance hs (ns, mx, mn, mnode)))) = None \<longleftrightarrow> mnode = None \<and> hs = []"
proof (induction hs arbitrary: ns mx mn mnode)
  case Nil
  then show ?case by simp
next
  case (Cons a hs)
  show ?case
    unfolding compute_imbalance.simps Let_def Cons.IH by simp
qed

lemma compute_imbalance_min:
  assumes "compute_imbalance hs (ns, mx, mn, mnode) = (ns', mx', mn', Some t)"
    and "mnode = None \<or> (\<exists>m0. mnode = Some m0 \<and> mn = load_of ns m0)"
  shows "mn' = load_of ns t \<and> (t \<in> set hs \<or> mnode = Some t) \<and> (\<forall>h\<in>set hs. mn' \<le> load_of ns h)
         \<and> (mnode \<noteq> None \<longrightarrow> mn' \<le> mn)"
  using assms
proof (induction hs arbitrary: ns mx mn mnode)
  case Nil
  then show ?case by auto
next
  case (Cons a hs)
  define ns1 where "ns1 = ns(a \<mapsto> update (node_at ns a))"
  define lower where "lower = (mnode = None \<or> load_of ns a < mn)"
  define mn1 where "mn1 = (if lower then load_of ns a else mn)"
  define mnode1 where "mnode1 = (if lower then Some a else mnode)"
  define mx1 where "mx1 = (if load_of ns a > mx then load_of ns a else mx)"
  have step: "compute_imbalance (a # hs) (ns, mx, mn, mnode) = compute_imbalance hs (ns1, mx1, mn1, mnode1)"
    by (simp add: Let_def ns1_def lower_def mn1_def mnode1_def mx1_def load_of_def)
  have l: "load_of ns1 h = load_of ns h" for h by (simp add: ns1_def)
  have pre: "mnode1 = None \<or> (\<exists>m0. mnode1 = Some m0 \<and> mn1 = load_of ns1 m0)"
    using Cons.prems(2) by (auto simp: mnode1_def mn1_def l)
  from Cons.IH[OF Cons.prems(1)[unfolded step] pre]
  have ih: "mn' = load_of ns t" "t \<in> set hs \<or> mnode1 = Some t" "\<forall>h\<in>set hs. mn' \<le> load_of ns h"
    "mnode1 \<noteq> None \<longrightarrow> mn' \<le> mn1"
    unfolding l by blast+
  have ne: "mnode1 \<noteq> None" by (auto simp: mnode1_def lower_def)
  with ih(4) have le1: "mn' \<le> mn1" by simp
  have "mn1 \<le> load_of ns a" by (auto simp: mn1_def lower_def)
  with le1 have a: "mn' \<le> load_of ns a" by simp
  have b: "mnode \<noteq> None \<longrightarrow> mn' \<le> mn" using le1 by (auto simp: mn1_def lower_def split: if_splits)
  have c: "t \<in> set (a # hs) \<or> mnode = Some t" using ih(2) by (auto simp: mnode1_def split: if_splits)
  from ih(1,3) a b c show ?case by simp
qed

lemma compute_imbalance_max:
  assumes "compute_imbalance hs (ns, mx, mn, mnode) = (ns', mx', mn', mnode')"
  shows "mx \<le> mx' \<and> (\<forall>h\<in>set hs. load_of ns h \<le> mx') \<and> (mx' = mx \<or> mx' \<in> load_of ns ` set hs)"
  using assms
proof (induction hs arbitrary: ns mx mn mnode)
  case Nil
  then show ?case by auto
next
  case (Cons a hs)
  define ns1 where "ns1 = ns(a \<mapsto> update (node_at ns a))"
  define lower where "lower = (mnode = None \<or> load_of ns a < mn)"
  define mn1 where "mn1 = (if lower then load_of ns a else mn)"
  define mnode1 where "mnode1 = (if lower then Some a else mnode)"
  define mx1 where "mx1 = (if load_of ns a > mx then load_of ns a else mx)"
  have step: "compute_imbalance (a # hs) (ns, mx, mn, mnode) = compute_imbalance hs (ns1, mx1, mn1, mnode1)"
    by (simp add: Let_def ns1_def lower_def mn1_def mnode1_def mx1_def load_of_def)
  have l: "load_of ns1 h = load_of ns h" for h by (simp add: ns1_def)
  from Cons.IH[OF Cons.prems(1)[unfolded step]]
  have ih: "mx1 \<le> mx'" "\<forall>h\<in>set hs. load_of ns h \<le> mx'" "mx' = mx1 \<or> mx' \<in> load_of ns ` set hs"
    unfolding l by blast+
  have "mx \<le> mx1" "load_of ns a \<le> mx1" "mx1 = mx \<or> mx1 = load_of ns a"
    by (auto simp: mx1_def)
  with ih show ?case by auto
qed

lemma compute_imbalance_balanced:
  assumes "compute_imbalance hs (ns, mx, mn, mnode) = (ns', mx', mn', mnode')"
    and "\<forall>h\<in>set hs. load_of ns h = L"
    and "(mnode = None \<and> mx = 0 \<and> mn = 0 \<and> (hs = [] \<or> 0 \<le> L)) \<or> (mnode \<noteq> None \<and> mx = L \<and> mn = L)"
  shows "mx' = mn'"
  using assms
proof (induction hs arbitrary: ns mx mn mnode)
  case Nil
  then show ?case by auto
next
  case (Cons a hs)
  define ns1 where "ns1 = ns(a \<mapsto> update (node_at ns a))"
  define lower where "lower = (mnode = None \<or> load_of ns a < mn)"
  define mn1 where "mn1 = (if lower then load_of ns a else mn)"
  define mnode1 where "mnode1 = (if lower then Some a else mnode)"
  define mx1 where "mx1 = (if load_of ns a > mx then load_of ns a else mx)"
  have step: "compute_imbalance (a # hs) (ns, mx, mn, mnode) = compute_imbalance hs (ns1, mx1, mn1, mnode1)"
    by (simp add: Let_def ns1_def lower_def mn1_def mnode1_def mx1_def load_of_def)
  have l: "load_of ns1 h = load_of ns h" for h by (simp add: ns1_def)
  have la: "load_of ns a = L" using Cons.prems(2) by simp
  have "mnode1 \<noteq> None \<and> mx1 = L \<and> mn1 = L"
    using Cons.prems(3) by (auto simp: mnode1_def mx1_def mn1_def lower_def la)
  then show ?case
    using Cons.IH[OF Cons.prems(1)[unfolded step]] Cons.prems(2) by (simp add: l)
qed

definition shards_ok :: "token_metadata \<Rightarrow> host_id \<Rightarrow> node_load \<Rightarrow> bool" where
  "shards_ok t h n \<longleftrightarrow>
     set (shards_by_load n) \<subseteq> {..<length (shards n)} \<and>
     (\<forall>i<length (shards n).
        length (candidates (shards n ! i)) \<le> sl_tablet_count (shards n ! i) \<and>
        distinct (candidates (shards n ! i)) \<and>
        (\<forall>g\<in>set (candidates (shards n ! i)).
           \<exists>rs. tablet_replicas t g = Some rs \<and> \<lparr>host = h, shard = i\<rparr> \<in> set rs))"

definition shard_sum :: "node_load \<Rightarrow> nat" where
  "shard_sum n = sum_list (map sl_tablet_count (shards n))"

lemma sum_list_update_nat:
  fixes f :: "'a \<Rightarrow> nat"
  shows "i < length xs \<Longrightarrow> sum_list (map f (xs[i := y])) + f (xs ! i) = sum_list (map f xs) + f y"
proof (induction xs arbitrary: i)
  case Nil
  then show ?case by simp
next
  case (Cons x xs)
  then show ?case by (cases i) auto
qed

lemma add_candidate_Inr:
  assumes "add_candidate g r ns = Inr ns'"
  shows "ns (host r) = None \<Longrightarrow> ns' = ns"
    and "\<And>n. ns (host r) = Some n \<Longrightarrow> shard r < length (shards n) \<and>
           ns' = ns(host r \<mapsto> n
             \<lparr>shards_by_load := (if sl_tablet_count (shards n ! shard r) = 0
                                 then shards_by_load n @ [shard r] else shards_by_load n),
              shards := (shards n)[shard r := (shards n ! shard r)
                 \<lparr>sl_tablet_count := sl_tablet_count (shards n ! shard r) + 1,
                  candidates := List.insert g (candidates (shards n ! shard r))\<rparr>]\<rparr>)"
  using assms unfolding add_candidate_def Let_def
  by (auto split: option.splits if_splits)

lemma add_candidate_rel:
  assumes "add_candidate g r ns = Inr ns'" and "ns h = Some n"
  shows "\<exists>n'. ns' h = Some n' \<and> shard_count n' = shard_count n \<and> tablet_count n' = tablet_count n \<and>
           avg_load n' = avg_load n \<and> length (shards n') = length (shards n) \<and>
           shard_sum n' = shard_sum n + (if host r = h then 1 else 0)"
proof (cases "host r = h")
  case False
  then show ?thesis
    using assms add_candidate_Inr[OF assms(1)]
    by (cases "ns (host r)") auto
next
  case True
  with assms(2) have n: "ns (host r) = Some n" by simp
  from add_candidate_Inr(2)[OF assms(1) n] have lt: "shard r < length (shards n)"
    and ns': "ns' = ns(host r \<mapsto> n
             \<lparr>shards_by_load := (if sl_tablet_count (shards n ! shard r) = 0
                                 then shards_by_load n @ [shard r] else shards_by_load n),
              shards := (shards n)[shard r := (shards n ! shard r)
                 \<lparr>sl_tablet_count := sl_tablet_count (shards n ! shard r) + 1,
                  candidates := List.insert g (candidates (shards n ! shard r))\<rparr>]\<rparr>)"
    by blast+
  show ?thesis
    using sum_list_update_nat[OF lt, of sl_tablet_count "(shards n ! shard r)
                 \<lparr>sl_tablet_count := sl_tablet_count (shards n ! shard r) + 1,
                  candidates := List.insert g (candidates (shards n ! shard r))\<rparr>"] True
    by (simp add: ns' shard_sum_def)
qed

lemma add_candidate_dom:
  assumes "add_candidate g r ns = Inr ns'" shows "dom ns' = dom ns"
  using add_candidate_Inr[OF assms] by (cases "ns (host r)") auto

lemma add_candidate_shards_ok:
  assumes "add_candidate g r ns = Inr ns'"
    and "\<exists>rs. tablet_replicas t g = Some rs \<and> r \<in> set rs"
    and "\<And>h n. ns h = Some n \<Longrightarrow> shards_ok t h n"
    and "ns' h = Some n'"
  shows "shards_ok t h n'"
proof (cases "ns (host r)")
  case None
  with add_candidate_Inr(1)[OF assms(1)] assms(3,4) show ?thesis by simp
next
  case (Some n)
  from add_candidate_Inr(2)[OF assms(1) Some] have lt: "shard r < length (shards n)"
    and ns': "ns' = ns(host r \<mapsto> n
             \<lparr>shards_by_load := (if sl_tablet_count (shards n ! shard r) = 0
                                 then shards_by_load n @ [shard r] else shards_by_load n),
              shards := (shards n)[shard r := (shards n ! shard r)
                 \<lparr>sl_tablet_count := sl_tablet_count (shards n ! shard r) + 1,
                  candidates := List.insert g (candidates (shards n ! shard r))\<rparr>]\<rparr>)"
    by blast+
  show ?thesis
  proof (cases "h = host r")
    case False
    with assms(3,4) show ?thesis by (simp add: ns')
  next
    case True
    have ok: "shards_ok t (host r) n" using assms(3) Some by blast
    have r: "\<lparr>host = host r, shard = shard r\<rparr> = r" by simp
    from assms(2) obtain rs0 where rs0: "tablet_replicas t g = Some rs0" "r \<in> set rs0" by blast
    from rs0(2) have rs0': "\<lparr>host = host r, shard = shard r\<rparr> \<in> set rs0" unfolding r .
    have len: "length (List.insert g cs) \<le> Suc (length cs)" for cs :: "global_tablet_id list"
      by (simp add: List.insert_def)
    from assms(4) True have n': "n' = n
             \<lparr>shards_by_load := (if sl_tablet_count (shards n ! shard r) = 0
                                 then shards_by_load n @ [shard r] else shards_by_load n),
              shards := (shards n)[shard r := (shards n ! shard r)
                 \<lparr>sl_tablet_count := sl_tablet_count (shards n ! shard r) + 1,
                  candidates := List.insert g (candidates (shards n ! shard r))\<rparr>]\<rparr>"
      by (simp add: ns')
    show ?thesis
      unfolding shards_ok_def True
    proof (intro conjI allI impI)
      show "set (shards_by_load n') \<subseteq> {..<length (shards n')}"
        using ok lt by (auto simp: n' shards_ok_def)
    next
      fix i assume i: "i < length (shards n')"
      then have i': "i < length (shards n)" by (simp add: n')
      show "length (candidates (shards n' ! i)) \<le> sl_tablet_count (shards n' ! i)"
        using ok i' len[of "candidates (shards n ! shard r)"]
        by (cases "i = shard r") (auto simp: n' shards_ok_def intro: le_trans)
      show "distinct (candidates (shards n' ! i))"
        using ok i' by (cases "i = shard r") (auto simp: n' shards_ok_def)
      show "\<forall>g\<in>set (candidates (shards n' ! i)).
           \<exists>rs. tablet_replicas t g = Some rs \<and> \<lparr>host = host r, shard = i\<rparr> \<in> set rs"
        using ok i' rs0(1) rs0'
        by (cases "i = shard r") (auto simp: n' shards_ok_def)
    qed
  qed
qed


lemma add_fold_rel:
  assumes "fold_err (\<lambda>(g, r). add_candidate g r) xs ns = Inr ns'" and "ns h = Some n"
  shows "\<exists>n'. ns' h = Some n' \<and> shard_count n' = shard_count n \<and> tablet_count n' = tablet_count n \<and>
           avg_load n' = avg_load n \<and> length (shards n') = length (shards n) \<and>
           shard_sum n' = shard_sum n + replicas_on h xs"
  using assms
proof (induction xs arbitrary: ns n)
  case Nil
  then show ?case by simp
next
  case (Cons x xs)
  obtain g r where x: "x = (g, r)" by (cases x)
  from Cons.prems(1) obtain ns1 where s: "add_candidate g r ns = Inr ns1"
    and f: "fold_err (\<lambda>(g, r). add_candidate g r) xs ns1 = Inr ns'"
    by (auto simp: x split: sum.splits)
  from add_candidate_rel[OF s Cons.prems(2)] obtain n1 where n1: "ns1 h = Some n1"
    "shard_count n1 = shard_count n" "tablet_count n1 = tablet_count n" "avg_load n1 = avg_load n"
    "length (shards n1) = length (shards n)" "shard_sum n1 = shard_sum n + (if host r = h then 1 else 0)"
    by blast
  from Cons.IH[OF f n1(1)] n1(2-) show ?case by (auto simp: x)
qed

lemma add_fold_dom:
  "fold_err (\<lambda>(g, r). add_candidate g r) xs ns = Inr ns' \<Longrightarrow> dom ns' = dom ns"
proof (induction xs arbitrary: ns)
  case Nil
  then show ?case by simp
next
  case (Cons x xs)
  obtain g r where x: "x = (g, r)" by (cases x)
  from Cons.prems(1) obtain ns1 where s: "add_candidate g r ns = Inr ns1"
    and f: "fold_err (\<lambda>(g, r). add_candidate g r) xs ns1 = Inr ns'"
    by (auto simp: x split: sum.splits)
  from Cons.IH[OF f] add_candidate_dom[OF s] show ?case by simp
qed

lemma add_fold_shards_ok:
  assumes "fold_err (\<lambda>(g, r). add_candidate g r) xs ns = Inr ns'"
    and "\<forall>(g, r)\<in>set xs. \<exists>rs. tablet_replicas t g = Some rs \<and> r \<in> set rs"
    and "\<And>h n. ns h = Some n \<Longrightarrow> shards_ok t h n"
    and "ns' h = Some n'"
  shows "shards_ok t h n'"
  using assms
proof (induction xs arbitrary: ns)
  case Nil
  then show ?case by simp
next
  case (Cons x xs)
  obtain g r where x: "x = (g, r)" by (cases x)
  from Cons.prems(1) obtain ns1 where s: "add_candidate g r ns = Inr ns1"
    and f: "fold_err (\<lambda>(g, r). add_candidate g r) xs ns1 = Inr ns'"
    by (auto simp: x split: sum.splits)
  have v: "\<exists>rs. tablet_replicas t g = Some rs \<and> r \<in> set rs" using Cons.prems(2) by (simp add: x)
  have ok1: "shards_ok t h n" if "ns1 h = Some n" for h n
    using add_candidate_shards_ok[OF s v _ that] Cons.prems(3) by blast
  show ?case
  proof (rule Cons.IH[OF f])
    show "\<forall>(g, r)\<in>set xs. \<exists>rs. tablet_replicas t g = Some rs \<and> r \<in> set rs"
      using Cons.prems(2) by simp
  qed (use ok1 Cons.prems(4) in auto)
qed

definition in_range :: "node_loads \<Rightarrow> (global_tablet_id \<times> tablet_replica) list \<Rightarrow> bool" where
  "in_range ns xs \<longleftrightarrow> (\<forall>(g, r)\<in>set xs. \<forall>n. ns (host r) = Some n \<longrightarrow> shard r < length (shards n))"

lemma in_range_simps [simp]:
  "in_range ns []"
  "in_range ns (x # xs) \<longleftrightarrow> (\<forall>n. ns (host (snd x)) = Some n \<longrightarrow> shard (snd x) < length (shards n)) \<and> in_range ns xs"
  "in_range ns (xs @ ys) \<longleftrightarrow> in_range ns xs \<and> in_range ns ys"
  by (auto simp: in_range_def)

lemma in_range_fold:
  assumes "fold_err (\<lambda>(g, r). add_candidate g r) xs ns = Inr ns'" and "in_range ns ys"
  shows "in_range ns' ys"
  unfolding in_range_def
proof (intro ballI, clarify)
  fix g r n' assume m: "(g, r) \<in> set ys" and n': "ns' (host r) = Some n'"
  from n' add_fold_dom[OF assms(1)] obtain n where n: "ns (host r) = Some n" by blast
  from add_fold_rel[OF assms(1) n] n' have "length (shards n') = length (shards n)" by auto
  with assms(2) m n show "shard r < length (shards n')" by (auto simp: in_range_def)
qed

lemma add_candidate_no_error:
  "(\<And>n. ns (host r) = Some n \<Longrightarrow> shard r < length (shards n)) \<Longrightarrow> \<exists>ns'. add_candidate g r ns = Inr ns'"
  unfolding add_candidate_def Let_def by (auto split: option.splits)

lemma add_fold_no_error:
  "in_range ns xs \<Longrightarrow> \<exists>ns'. fold_err (\<lambda>(g, r). add_candidate g r) xs ns = Inr ns'"
proof (induction xs arbitrary: ns)
  case Nil
  then show ?case by simp
next
  case (Cons x xs)
  obtain g r where x: "x = (g, r)" by (cases x)
  from Cons.prems obtain ns1 where s: "add_candidate g r ns = Inr ns1"
    using add_candidate_no_error[of ns r g] by (auto simp: x)
  have "in_range ns1 xs"
    using in_range_fold[of "[(g, r)]" ns ns1 xs] s Cons.prems by simp
  from Cons.IH[OF this] s show ?case by (simp add: x)
qed

lemma compute_shard_load_char:
  assumes "in_range ns (tagged_replicas tabs)"
  shows "((\<exists>(tbl, tmap)\<in>set tabs. transitions tmap \<noteq> []) \<and> compute_shard_load tabs ns = Inr None) \<or>
         ((\<forall>(tbl, tmap)\<in>set tabs. transitions tmap = []) \<and>
          (\<exists>ns'. compute_shard_load tabs ns = Inr (Some ns') \<and>
                 fold_err (\<lambda>(g, r). add_candidate g r) (tagged_replicas tabs) ns = Inr ns'))"
  using assms
proof (induction tabs arbitrary: ns)
  case Nil
  then show ?case by (simp add: tagged_replicas_def)
next
  case (Cons x tabs)
  obtain tbl tmap where x: "x = (tbl, tmap)" by (cases x)
  have tg: "tagged_replicas (x # tabs) = table_replicas (tbl, tmap) @ tagged_replicas tabs"
    by (simp add: tagged_replicas_def x)
  show ?case
  proof (cases "transitions tmap = []")
    case False
    then show ?thesis by (simp add: x)
  next
    case True
    from Cons.prems have r1: "in_range ns (table_replicas (tbl, tmap))"
      and r2: "in_range ns (tagged_replicas tabs)" by (simp_all add: tg)
    from add_fold_no_error[OF r1] obtain ns1
      where f1: "fold_err (\<lambda>(g, r). add_candidate g r) (table_replicas (tbl, tmap)) ns = Inr ns1"
      by blast
    have r3: "in_range ns1 (tagged_replicas tabs)" by (rule in_range_fold[OF f1 r2])
    have c: "compute_shard_load (x # tabs) ns = compute_shard_load tabs ns1"
      using True f1[unfolded fold_err_table] by (simp add: x)
    have f: "fold_err (\<lambda>(g, r). add_candidate g r) (tagged_replicas (x # tabs)) ns
        = fold_err (\<lambda>(g, r). add_candidate g r) (tagged_replicas tabs) ns1"
      by (simp add: tg fold_err_append f1)
    from Cons.IH[OF r3] True show ?thesis unfolding c f by (auto simp: x)
  qed
qed

lemma clearjunk_member: "(k, v) \<in> set (AList.clearjunk al) \<Longrightarrow> map_of al k = Some v"
  by (metis distinct_clearjunk map_of_clearjunk map_of_eq_Some_iff)

lemma clearjunk_complete: "map_of al k = Some v \<Longrightarrow> (k, v) \<in> set (AList.clearjunk al)"
  by (metis map_of_SomeD map_of_clearjunk)

lemma tagged_replicas_valid:
  assumes "(g, r) \<in> set (all_replicas t)"
  shows "\<exists>rs. tablet_replicas t g = Some rs \<and> r \<in> set rs"
proof -
  from assms obtain tbl tmap tid ti where
    a: "(tbl, tmap) \<in> set (AList.clearjunk (tablets t))"
    and b: "(tid, ti) \<in> set (enumerate 0 (tablet_list tmap))"
    and c: "g = \<lparr>table = tbl, tablet = tid\<rparr>" "r \<in> set (replicas ti)"
    unfolding all_replicas_def tagged_replicas_def table_replicas_def all_tables_def for_each_tablet_def
    by auto
  from b have "tid < length (tablet_list tmap)" "tablet_list tmap ! tid = ti"
    by (auto simp: in_set_enumerate_eq)
  with clearjunk_member[OF a] c show ?thesis
    by (simp add: tablet_replicas_def get_tablet_map_def get_tablet_info_def)
qed

lemma make_shard_heaps_rel:
  assumes "set hs \<subseteq> dom ns"
  shows "dom (make_shard_heaps hs ns) = dom ns \<and>
     (\<forall>h n. ns h = Some n \<longrightarrow>
        (\<exists>sbl. make_shard_heaps hs ns h = Some (n\<lparr>shards_by_load := sbl\<rparr>) \<and>
               set sbl = set (shards_by_load n)))"
  using assms
proof (induction hs arbitrary: ns)
  case Nil
  show ?case
  proof (intro conjI allI impI)
    show "dom (make_shard_heaps [] ns) = dom ns" by (simp add: make_shard_heaps_def)
  next
    fix h n assume "ns h = Some n"
    then have "make_shard_heaps [] ns h = Some (n\<lparr>shards_by_load := shards_by_load n\<rparr>) \<and>
        set (shards_by_load n) = set (shards_by_load n)"
      by (simp add: make_shard_heaps_def)
    then show "\<exists>sbl. make_shard_heaps [] ns h = Some (n\<lparr>shards_by_load := sbl\<rparr>) \<and>
               set sbl = set (shards_by_load n)" by blast
  qed
next
  case (Cons a hs)
  from Cons.prems obtain na where na: "ns a = Some na" by auto
  define ns1 where "ns1 = ns(a \<mapsto> na\<lparr>shards_by_load := make_heap (shards_by_load_cmp na) (shards_by_load na)\<rparr>)"
  have step: "make_shard_heaps (a # hs) ns = make_shard_heaps hs ns1"
    by (simp add: make_shard_heaps_def Let_def ns1_def na)
  have d1: "dom ns1 = dom ns" using na by (auto simp: ns1_def)
  with Cons.prems have sub: "set hs \<subseteq> dom ns1" by simp
  note ih = Cons.IH[OF sub]
  show ?case
    unfolding step
  proof (intro conjI allI impI)
    show "dom (make_shard_heaps hs ns1) = dom ns" using ih d1 by simp
  next
    fix h n assume n: "ns h = Some n"
    show "\<exists>sbl. make_shard_heaps hs ns1 h = Some (n\<lparr>shards_by_load := sbl\<rparr>) \<and>
               set sbl = set (shards_by_load n)"
    proof (cases "h = a")
      case True
      with n na have "ns1 h = Some (n\<lparr>shards_by_load := make_heap (shards_by_load_cmp n) (shards_by_load n)\<rparr>)"
        by (simp add: ns1_def)
      with ih show ?thesis by fastforce
    next
      case False
      with n have "ns1 h = Some n" by (simp add: ns1_def)
      with ih show ?thesis by blast
    qed
  qed
qed

definition counted_node_load :: "token_metadata \<Rightarrow> host_id \<Rightarrow> node \<Rightarrow> node_load" where
  "counted_node_load t h nd = (fresh_node_load nd)\<lparr>tablet_count := replicas_on h (all_replicas t)\<rparr>"

lemma node_keys_iff:
  "h \<in> set (node_keys d topo) \<longleftrightarrow> (\<exists>nd. find_node topo h = Some nd \<and> selected d nd)"
proof
  assume "h \<in> set (node_keys d topo)"
  then obtain p where p: "p \<in> set (AList.clearjunk topo)" "fst p = h" "selected d (snd p)"
    unfolding node_keys_def for_each_node_def selected_def by (auto simp: case_prod_beta)
  have "(h, snd p) = p" using p(2) by auto
  with p(1) have "(h, snd p) \<in> set (AList.clearjunk topo)" by simp
  then have "find_node topo h = Some (snd p)"
    unfolding find_node_def by (rule clearjunk_member)
  with p(3) show "\<exists>nd. find_node topo h = Some nd \<and> selected d nd" by blast
next
  assume "\<exists>nd. find_node topo h = Some nd \<and> selected d nd"
  then obtain nd where nd: "map_of topo h = Some nd" "selected d nd" by (auto simp: find_node_def)
  from clearjunk_complete[OF nd(1)] have "(h, nd) \<in> set (AList.clearjunk topo)" .
  with nd(2) have "(h, nd) \<in> set (filter (\<lambda>(h, n). get_state n = normal \<and> dc (dc_rack n) = d) (AList.clearjunk topo))"
    by (simp add: selected_def)
  then have "fst (h, nd) \<in> fst ` set (filter (\<lambda>(h, n). get_state n = normal \<and> dc (dc_rack n) = d) (AList.clearjunk topo))"
    by (rule imageI)
  then show "h \<in> set (node_keys d topo)"
    unfolding node_keys_def for_each_node_def by simp
qed

lemma compute_node_load_char:
  assumes "compute_node_load t d = Inr ns1"
  shows "ns1 h = (case find_node (get_topology t) h of
                    Some nd \<Rightarrow> if selected d nd then Some (counted_node_load t h nd) else None
                  | None \<Rightarrow> None)"
    and "\<And>h nd. find_node (get_topology t) h = Some nd \<Longrightarrow> selected d nd \<Longrightarrow> 0 < get_shard_count nd"
    and "\<And>g r n. (g, r) \<in> set (all_replicas t) \<Longrightarrow> ns1 (host r) = Some n \<Longrightarrow> shard r < shard_count n"
    and "dom ns1 = set (node_keys d (get_topology t))"
proof -
  from assms obtain ns0 where
    a: "select_nodes d (for_each_node (get_topology t)) Map.empty = Inr ns0"
    and b: "compute_tablet_load (tablets t) ns0 = Inr ns1"
    unfolding compute_node_load_def by (auto split: sum.splits)
  have dj: "distinct (map fst (for_each_node (get_topology t)))"
    "fst ` set (for_each_node (get_topology t)) \<inter> dom (Map.empty :: node_loads) = {}"
    by (simp_all add: for_each_node_def)
  have m: "map_of (for_each_node (get_topology t)) = find_node (get_topology t)"
    by (auto simp: for_each_node_def find_node_def map_of_clearjunk)
  have ns0: "ns0 h = (case find_node (get_topology t) h of
                    Some nd \<Rightarrow> if selected d nd then Some (fresh_node_load nd) else None
                  | None \<Rightarrow> None)" for h
    using select_nodes_Inr(1)[OF a dj, of h] by (simp add: m)
  from b have f: "fold_err (\<lambda>(g, r). count_replica r) (all_replicas t) ns0 = Inr ns1"
    by (simp add: compute_tablet_load_flat all_replicas_def)
  show 1: "ns1 h = (case find_node (get_topology t) h of
                    Some nd \<Rightarrow> if selected d nd then Some (counted_node_load t h nd) else None
                  | None \<Rightarrow> None)" for h
    unfolding count_fold_Inr(1)[OF f] ns0
    by (auto simp: counted_node_load_def fresh_node_load_def split: option.splits)
  show "0 < get_shard_count nd" if "find_node (get_topology t) h = Some nd" "selected d nd" for h nd
  proof -
    from that(1) have "(h, nd) \<in> set (for_each_node (get_topology t))"
      by (simp add: find_node_def for_each_node_def clearjunk_complete)
    with select_nodes_Inr(2)[OF a dj] that(2) show ?thesis by auto
  qed
  show "shard r < shard_count n" if "(g, r) \<in> set (all_replicas t)" "ns1 (host r) = Some n" for g r n
  proof -
    have e: "ns1 (host r) = map_option (\<lambda>n. n\<lparr>tablet_count := tablet_count n + replicas_on (host r) (all_replicas t)\<rparr>) (ns0 (host r))"
      by (rule count_fold_Inr(1)[OF f])
    from that(2) obtain n0 where n0: "ns0 (host r) = Some n0" "shard_count n = shard_count n0"
      unfolding e by (cases "ns0 (host r)") auto
    from count_fold_Inr(2)[OF f] that(1) have "\<forall>n. ns0 (host r) = Some n \<longrightarrow> shard r < shard_count n"
      by blast
    with n0 show ?thesis by simp
  qed
  show "dom ns1 = set (node_keys d (get_topology t))"
  proof (rule set_eqI)
    fix h
    have "h \<in> dom ns1 \<longleftrightarrow> (\<exists>nd. find_node (get_topology t) h = Some nd \<and> selected d nd)"
      by (cases "find_node (get_topology t) h") (simp_all add: dom_def 1[of h])
    then show "h \<in> dom ns1 \<longleftrightarrow> h \<in> set (node_keys d (get_topology t))"
      by (simp only: node_keys_iff)
  qed
qed

definition pending :: "token_metadata \<Rightarrow> bool" where
  "pending t \<longleftrightarrow> (\<exists>(tbl, tmap)\<in>set (all_tables (tablets t)). transitions tmap \<noteq> [])"

lemma counted_node_load_fields [simp]:
  "shard_count (counted_node_load t h nd) = get_shard_count nd"
  "tablet_count (counted_node_load t h nd) = replicas_on h (all_replicas t)"
  "shards (counted_node_load t h nd) = replicate (get_shard_count nd) empty_shard_load"
  "shards_by_load (counted_node_load t h nd) = []"
  by (simp_all add: counted_node_load_def fresh_node_load_def)

lemma prepare_char:
  assumes A: "compute_node_load t d = Inr ns1"
    and I: "compute_imbalance (node_keys d (get_topology t)) (ns1, 0, 0, None) = (ns2, mx, mn, mnode)"
  shows "ns2 h = map_option update (ns1 h)"
    and "mx = mn \<Longrightarrow> prepare t d = Inr Balanced"
    and "mx \<noteq> mn \<Longrightarrow> \<exists>tgt tn. mnode = Some tgt \<and> tgt \<in> set (node_keys d (get_topology t)) \<and>
           find_node (get_topology t) tgt = Some tn \<and> mn = load_of ns1 tgt \<and>
           (\<forall>h\<in>set (node_keys d (get_topology t)). mn \<le> load_of ns1 h) \<and>
           (if pending t then prepare t d = Inr Pending
            else \<exists>ns3. fold_err (\<lambda>(g, r). add_candidate g r) (all_replicas t) ns2 = Inr ns3 \<and>
                   prepare t d = Inr (Ready
                     \<lparr>tm = t, dc_name = d, target = tgt, target_node = tn,
                      batch_size = get_shard_count tn\<rparr>
                     \<lparr>nodes = make_shard_heaps (node_keys d (get_topology t)) ns3,
                      nodes_by_load = make_heap (nodes_cmp (make_shard_heaps (node_keys d (get_topology t)) ns3))
                                        (node_keys d (get_topology t)),
                      target_load = populate t tgt, plan = [], max_off_candidate_load = 0\<rparr>))"
proof -
  let ?keys = "node_keys d (get_topology t)"
  note ch = compute_node_load_char[OF A]
  show ns2: "ns2 h = map_option update (ns1 h)" for h
  proof -
    have "ns2 h = (if h \<in> set ?keys then Some (update (node_at ns1 h)) else ns1 h)"
      using compute_imbalance_nodes[of ?keys ns1 0 0 None h] by (simp add: I)
    moreover have "h \<in> set ?keys \<longleftrightarrow> ns1 h \<noteq> None"
      unfolding ch(4)[symmetric] by (simp add: dom_def)
    ultimately show ?thesis
      by (cases "ns1 h") auto
  qed
  show "prepare t d = Inr Balanced" if "mx = mn"
    using that by (simp add: prepare_def A I)
  show "\<exists>tgt tn. mnode = Some tgt \<and> tgt \<in> set ?keys \<and>
           find_node (get_topology t) tgt = Some tn \<and> mn = load_of ns1 tgt \<and>
           (\<forall>h\<in>set ?keys. mn \<le> load_of ns1 h) \<and>
           (if pending t then prepare t d = Inr Pending
            else \<exists>ns3. fold_err (\<lambda>(g, r). add_candidate g r) (all_replicas t) ns2 = Inr ns3 \<and>
                   prepare t d = Inr (Ready
                     \<lparr>tm = t, dc_name = d, target = tgt, target_node = tn,
                      batch_size = get_shard_count tn\<rparr>
                     \<lparr>nodes = make_shard_heaps ?keys ns3,
                      nodes_by_load = make_heap (nodes_cmp (make_shard_heaps ?keys ns3)) ?keys,
                      target_load = populate t tgt, plan = [], max_off_candidate_load = 0\<rparr>))"
    if ne: "mx \<noteq> mn"
  proof -
    have "?keys \<noteq> []"
    proof
      assume "?keys = []"
      with I have "mx = 0" "mn = 0" by simp_all
      with ne show False by simp
    qed
    with compute_imbalance_none[of ?keys ns1 0 0 None] I obtain tgt where tgt: "mnode = Some tgt"
      by (cases mnode) auto
    from compute_imbalance_min[OF I[unfolded tgt]] have
      mn: "mn = load_of ns1 tgt" and tk: "tgt \<in> set ?keys" and le: "\<forall>h\<in>set ?keys. mn \<le> load_of ns1 h"
      by auto
    from tk obtain tn where tn: "find_node (get_topology t) tgt = Some tn"
      unfolding node_keys_iff by blast
    have rng: "in_range ns2 (all_replicas t)"
      unfolding in_range_def
    proof (intro ballI, clarify)
      fix g r n assume m: "(g, r) \<in> set (all_replicas t)" and n: "ns2 (host r) = Some n"
      from n obtain n1 where n1: "ns1 (host r) = Some n1" "n = update n1"
        unfolding ns2 by auto
      from n1(1) have "length (shards n1) = shard_count n1"
        unfolding ch(1) by (auto split: option.splits if_splits)
      with ch(3)[OF m n1(1)] n1(2) show "shard r < length (shards n)" by simp
    qed
    have P: "(\<exists>(tbl, tmap)\<in>set (all_tables (tablets t)). transitions tmap \<noteq> []) = pending t"
      by (simp add: pending_def)
    have Q: "(\<forall>(tbl, tmap)\<in>set (all_tables (tablets t)). transitions tmap = []) = (\<not> pending t)"
      by (auto simp: pending_def)
    from compute_shard_load_char[OF rng[unfolded all_replicas_def]]
    have c: "(pending t \<and> compute_shard_load (all_tables (tablets t)) ns2 = Inr None) \<or>
         (\<not> pending t \<and>
          (\<exists>ns'. compute_shard_load (all_tables (tablets t)) ns2 = Inr (Some ns') \<and>
                 fold_err (\<lambda>(g, r). add_candidate g r) (all_replicas t) ns2 = Inr ns'))"
      unfolding P Q all_replicas_def .
    have "if pending t then prepare t d = Inr Pending
            else \<exists>ns3. fold_err (\<lambda>(g, r). add_candidate g r) (all_replicas t) ns2 = Inr ns3 \<and>
                   prepare t d = Inr (Ready
                     \<lparr>tm = t, dc_name = d, target = tgt, target_node = tn,
                      batch_size = get_shard_count tn\<rparr>
                     \<lparr>nodes = make_shard_heaps ?keys ns3,
                      nodes_by_load = make_heap (nodes_cmp (make_shard_heaps ?keys ns3)) ?keys,
                      target_load = populate t tgt, plan = [], max_off_candidate_load = 0\<rparr>)"
    proof (cases "pending t")
      case True
      with c have "compute_shard_load (all_tables (tablets t)) ns2 = Inr None" by blast
      with True show ?thesis using ne by (simp add: prepare_def A I tgt tn)
    next
      case False
      with c obtain ns3 where "compute_shard_load (all_tables (tablets t)) ns2 = Inr (Some ns3)"
        "fold_err (\<lambda>(g, r). add_candidate g r) (all_replicas t) ns2 = Inr ns3" by blast
      with False show ?thesis using ne by (simp add: prepare_def A I tgt tn Let_def)
    qed
    with tgt tk tn mn le show ?thesis by blast
  qed
qed

lemma prepare_Inl:
  "prepare t d = Inl e \<Longrightarrow> compute_node_load t d = Inl e"
proof (cases "compute_node_load t d")
  case (Inl e')
  assume "prepare t d = Inl e"
  with Inl show ?thesis by (simp add: prepare_def)
next
  case (Inr ns1)
  assume p: "prepare t d = Inl e"
  obtain ns2 mx mn mnode where I: "compute_imbalance (node_keys d (get_topology t)) (ns1, 0, 0, None) = (ns2, mx, mn, mnode)"
    by (metis prod_cases4)
  from prepare_char(2,3)[OF Inr I] p show ?thesis
    by (cases "mx = mn"; cases "pending t") auto
qed

subsection \<open>The invariant of the selection loop\<close>

definition node_ok :: "lb_context \<Rightarrow> nat \<Rightarrow> host_id \<Rightarrow> node_load \<Rightarrow> bool" where
  "node_ok c k h n \<longleftrightarrow>
     (\<exists>nd. find_node (get_topology (tm c)) h = Some nd \<and> dc (dc_rack nd) = dc_name c) \<and>
     0 < shard_count n \<and>
     avg_load n = get_avg_load n (tablet_count n) \<and>
     shards_ok (tm c) h n \<and>
     tablet_count n = shard_sum n + (if h = target c then k else 0)"

definition lb_inv :: "lb_context \<Rightarrow> lb_state \<Rightarrow> bool" where
  "lb_inv c s \<longleftrightarrow>
     (\<forall>h n. nodes s h = Some n \<longrightarrow> node_ok c (length (plan s)) h n) \<and>
     set (nodes_by_load s) \<subseteq> dom (nodes s) \<and>
     target c \<in> dom (nodes s)"

lemma shards_ok_cong:
  "shards n' = shards n \<Longrightarrow> set (shards_by_load n') \<subseteq> set (shards_by_load n) \<Longrightarrow>
   shards_ok t h n \<Longrightarrow> shards_ok t h n'"
  by (auto simp: shards_ok_def)

lemma shard_sum_cong: "shards n' = shards n \<Longrightarrow> shard_sum n' = shard_sum n"
  by (simp add: shard_sum_def)

lemma set_removeAll_subset: "set (removeAll g cs) \<subseteq> set cs"
  by auto

lemma shards_ok_remove:
  assumes "shards_ok t h n" and "sh < length (shards n)"
  shows "shards_ok t h (n\<lparr>shards := (shards n)[sh := (shards n ! sh)
            \<lparr>candidates := removeAll g (candidates (shards n ! sh))\<rparr>]\<rparr>)"
  unfolding shards_ok_def
proof (intro conjI allI impI)
  let ?n' = "n\<lparr>shards := (shards n)[sh := (shards n ! sh)
            \<lparr>candidates := removeAll g (candidates (shards n ! sh))\<rparr>]\<rparr>"
  show "set (shards_by_load ?n') \<subseteq> {..<length (shards ?n')}"
    using assms(1) by (simp add: shards_ok_def)
  fix i assume "i < length (shards ?n')"
  then have i: "i < length (shards n)" by simp
  have le: "length (removeAll g cs) \<le> length cs" for cs :: "global_tablet_id list"
    by (simp add: length_removeAll_less_eq)
  from assms(1) i have ok: "length (candidates (shards n ! i)) \<le> sl_tablet_count (shards n ! i)"
    "distinct (candidates (shards n ! i))"
    "\<forall>g\<in>set (candidates (shards n ! i)). \<exists>rs. tablet_replicas t g = Some rs \<and> \<lparr>host = h, shard = i\<rparr> \<in> set rs"
    by (simp_all add: shards_ok_def)
  show "length (candidates (shards ?n' ! i)) \<le> sl_tablet_count (shards ?n' ! i)"
    using ok(1) i by (cases "i = sh") (auto intro: order_trans[OF le])
  show "distinct (candidates (shards ?n' ! i))"
    using ok(2) i by (cases "i = sh") (auto simp: distinct_removeAll)
  show "\<forall>g\<in>set (candidates (shards ?n' ! i)). \<exists>rs. tablet_replicas t g = Some rs \<and> \<lparr>host = h, shard = i\<rparr> \<in> set rs"
    using ok(3) i by (cases "i = sh") auto
qed

lemma dec64_pos: "0 < n \<Longrightarrow> dec64 n = n - 1"
  by (simp add: dec64_def)

lemma shards_ok_dec:
  assumes "shards_ok t h n" and "sh < length (shards n)"
    and "length (candidates (shards n ! sh)) < sl_tablet_count (shards n ! sh)"
  shows "shards_ok t h (n\<lparr>shards := (shards n)[sh := (shards n ! sh)
            \<lparr>sl_tablet_count := dec64 (sl_tablet_count (shards n ! sh))\<rparr>]\<rparr>)"
  unfolding shards_ok_def
proof (intro conjI allI impI)
  let ?n' = "n\<lparr>shards := (shards n)[sh := (shards n ! sh)
            \<lparr>sl_tablet_count := dec64 (sl_tablet_count (shards n ! sh))\<rparr>]\<rparr>"
  show "set (shards_by_load ?n') \<subseteq> {..<length (shards ?n')}"
    using assms(1) by (simp add: shards_ok_def)
  fix i assume "i < length (shards ?n')"
  then have i: "i < length (shards n)" by simp
  from assms(1) i have ok: "length (candidates (shards n ! i)) \<le> sl_tablet_count (shards n ! i)"
    "distinct (candidates (shards n ! i))"
    "\<forall>g\<in>set (candidates (shards n ! i)). \<exists>rs. tablet_replicas t g = Some rs \<and> \<lparr>host = h, shard = i\<rparr> \<in> set rs"
    by (simp_all add: shards_ok_def)
  have d: "dec64 (sl_tablet_count (shards n ! sh)) = sl_tablet_count (shards n ! sh) - 1"
    using assms(3) by (simp add: dec64_pos)
  show "length (candidates (shards ?n' ! i)) \<le> sl_tablet_count (shards ?n' ! i)"
    using ok(1) i assms(3) by (cases "i = sh") (auto simp: d)
  show "distinct (candidates (shards ?n' ! i))"
    using ok(2) i by (cases "i = sh") auto
  show "\<forall>g\<in>set (candidates (shards ?n' ! i)). \<exists>rs. tablet_replicas t g = Some rs \<and> \<lparr>host = h, shard = i\<rparr> \<in> set rs"
    using ok(3) i by (cases "i = sh") auto
qed

lemma shard_sum_remove:
  "shard_sum (n\<lparr>shards := (shards n)[sh := (shards n ! sh)\<lparr>candidates := cs\<rparr>]\<rparr>) = shard_sum n"
proof (cases "sh < length (shards n)")
  case True
  from sum_list_update_nat[OF True, of sl_tablet_count "(shards n ! sh)\<lparr>candidates := cs\<rparr>"]
  show ?thesis by (simp add: shard_sum_def)
next
  case False
  then show ?thesis by (simp add: shard_sum_def list_update_beyond)
qed

lemma shard_sum_dec:
  assumes "sh < length (shards n)" and "0 < sl_tablet_count (shards n ! sh)"
  shows "shard_sum (n\<lparr>shards := (shards n)[sh := (shards n ! sh)
            \<lparr>sl_tablet_count := dec64 (sl_tablet_count (shards n ! sh))\<rparr>]\<rparr>) + 1 = shard_sum n"
  using sum_list_update_nat[OF assms(1), of sl_tablet_count "(shards n ! sh)
            \<lparr>sl_tablet_count := dec64 (sl_tablet_count (shards n ! sh))\<rparr>"] assms(2)
  by (simp add: shard_sum_def dec64_pos)

lemma shard_sum_ge:
  "sh < length (shards n) \<Longrightarrow> sl_tablet_count (shards n ! sh) \<le> shard_sum n"
  unfolding shard_sum_def by (auto intro: member_le_sum_list)


lemma emit_char:
  assumes "nodes s h = Some n" and "nodes s (target c) = Some tn" and "h \<noteq> target c"
  shows "\<exists>N. nodes (emit c h sh g s) = (nodes s)
          (target c \<mapsto> update (tn\<lparr>tablet_count := tablet_count tn + 1\<rparr>), h \<mapsto> N) \<and>
        shard_count N = shard_count n \<and> tablet_count N = dec64 (tablet_count n) \<and>
        avg_load N = get_avg_load N (tablet_count N) \<and>
        shards N = (shards n)[sh := (shards n ! sh)
                      \<lparr>sl_tablet_count := dec64 (sl_tablet_count (shards n ! sh))\<rparr>] \<and>
        set (shards_by_load N) \<subseteq> set (shards_by_load n)"
    and "set (nodes_by_load (emit c h sh g s)) \<subseteq> set (nodes_by_load s)"
proof -
  obtain dst_shard sk where ns: "next_shard (target_load s) = (dst_shard, sk)" by force
  define m where "m = \<lparr>mtablet = g, src = \<lparr>host = h, shard = sh\<rparr>,
               dst = \<lparr>host = target c, shard = dst_shard\<rparr>\<rparr>"
  define s1 where "s1 = s\<lparr>plan := plan s @ [m], target_load := sk\<rparr>"
  define target_info where "target_info = node_at (nodes s1) (target c)"
  define s2 where "s2 = s1\<lparr>nodes := (nodes s1)(target c \<mapsto>
                   update (target_info\<lparr>tablet_count := tablet_count target_info + 1\<rparr>))\<rparr>"
  define src_node_info where "src_node_info = node_at (nodes s2) h"
  define src_shard_info where "src_shard_info = shards src_node_info ! sh"
  define src_shard_info' where "src_shard_info' = src_shard_info\<lparr>sl_tablet_count := dec64 (sl_tablet_count src_shard_info)\<rparr>"
  define shard_cancel where "shard_cancel = (sl_tablet_count src_shard_info' = 0)"
  define src_node_info1 where "src_node_info1 = src_node_info
            \<lparr>shards := (shards src_node_info)[sh := src_shard_info'],
             shards_by_load := (if shard_cancel then butlast (shards_by_load src_node_info)
                                else shards_by_load src_node_info)\<rparr>"
  define src_node_info2 where "src_node_info2 = update (src_node_info1\<lparr>tablet_count := dec64 (tablet_count src_node_info1)\<rparr>)"
  define node_cancel where "node_cancel = (tablet_count src_node_info2 = 0)"
  define s3 where "s3 = s2\<lparr>nodes := (nodes s2)(h \<mapsto> src_node_info2),
                  nodes_by_load := (if node_cancel then butlast (nodes_by_load s2)
                                    else nodes_by_load s2)\<rparr>"
  define s4 where "s4 = (if shard_cancel then s3 else push_back_shard_candidate h s3)"
  have e: "emit c h sh g s = (if node_cancel then s4 else push_back_node_candidate s4)"
    unfolding emit_def ns Let_def prod.case
    by (simp only: m_def s1_def target_info_def s2_def src_node_info_def src_shard_info_def
         src_shard_info'_def shard_cancel_def src_node_info1_def src_node_info2_def node_cancel_def
         s3_def s4_def)
  have ti: "target_info = tn" by (simp add: target_info_def s1_def assms(2))
  have sn: "src_node_info = n" using assms(1,3) by (simp add: src_node_info_def s2_def s1_def)
  define N where "N = (if shard_cancel then src_node_info2
     else src_node_info2\<lparr>shards_by_load := push_heap (shards_by_load_cmp src_node_info2) (shards_by_load src_node_info2)\<rparr>)"
  have n4: "nodes s4 = (nodes s)
          (target c \<mapsto> update (tn\<lparr>tablet_count := tablet_count tn + 1\<rparr>), h \<mapsto> N)"
    by (cases shard_cancel)
       (simp_all add: s4_def s3_def s2_def s1_def ti N_def push_back_shard_candidate_def Let_def)
  have ne: "nodes (emit c h sh g s) = nodes s4"
    unfolding e by (simp add: push_back_node_candidate_def)
  have f: "shard_count N = shard_count n" "tablet_count N = dec64 (tablet_count n)"
    "shards N = (shards n)[sh := (shards n ! sh)
                      \<lparr>sl_tablet_count := dec64 (sl_tablet_count (shards n ! sh))\<rparr>]"
    "set (shards_by_load N) \<subseteq> set (shards_by_load n)"
    by (auto simp: N_def src_node_info2_def src_node_info1_def sn src_shard_info'_def
        src_shard_info_def dest: in_set_butlastD)
  have a: "avg_load N = get_avg_load N (tablet_count N)"
    by (simp add: N_def src_node_info2_def get_avg_load_def)
  show "\<exists>N. nodes (emit c h sh g s) = (nodes s)
          (target c \<mapsto> update (tn\<lparr>tablet_count := tablet_count tn + 1\<rparr>), h \<mapsto> N) \<and>
        shard_count N = shard_count n \<and> tablet_count N = dec64 (tablet_count n) \<and>
        avg_load N = get_avg_load N (tablet_count N) \<and>
        shards N = (shards n)[sh := (shards n ! sh)
                      \<lparr>sl_tablet_count := dec64 (sl_tablet_count (shards n ! sh))\<rparr>] \<and>
        set (shards_by_load N) \<subseteq> set (shards_by_load n)"
    by (rule exI[of _ N]) (use n4 ne f a in simp)
  have "set (nodes_by_load s4) \<subseteq> set (nodes_by_load s)"
    by (cases shard_cancel)
       (auto simp: s4_def s3_def s2_def s1_def push_back_shard_candidate_def Let_def
          dest: in_set_butlastD)
  then show "set (nodes_by_load (emit c h sh g s)) \<subseteq> set (nodes_by_load s)"
    unfolding e by (simp add: push_back_node_candidate_def)
qed


definition skip_effect :: "node_load \<Rightarrow> node_load \<Rightarrow> bool" where
  "skip_effect n N \<longleftrightarrow>
     shard_count N = shard_count n \<and> tablet_count N = tablet_count n \<and> avg_load N = avg_load n \<and>
     set (shards_by_load N) \<subseteq> set (shards_by_load n) \<and>
     (shards N = shards n \<or>
      (\<exists>sh g. sh < length (shards n) \<and>
         shards N = (shards n)[sh := (shards n ! sh)
                      \<lparr>candidates := removeAll g (candidates (shards n ! sh))\<rparr>]))"

definition move_effect :: "shard_id \<Rightarrow> global_tablet_id \<Rightarrow> node_load \<Rightarrow> node_load \<Rightarrow> bool" where
  "move_effect sh g n N \<longleftrightarrow>
     shard_count N = shard_count n \<and> tablet_count N = dec64 (tablet_count n) \<and>
     avg_load N = get_avg_load N (tablet_count N) \<and>
     set (shards_by_load N) \<subseteq> set (shards_by_load n) \<and>
     shards N = (shards n)[sh := (shards n ! sh)
                  \<lparr>candidates := removeAll g (candidates (shards n ! sh)),
                   sl_tablet_count := dec64 (sl_tablet_count (shards n ! sh))\<rparr>]"

definition moved :: "lb_context \<Rightarrow> lb_state \<Rightarrow> lb_state \<Rightarrow> host_id \<Rightarrow> node_load \<Rightarrow> node_load \<Rightarrow> bool" where
  "moved c s s' h n tn \<longleftrightarrow>
     (\<exists>sh g k N. sh < length (shards n) \<and> g \<in> set (candidates (shards n ! sh)) \<and>
        check_constraints c h g = Inr True \<and>
        plan s' = plan s @ [\<lparr>mtablet = g, src = \<lparr>host = h, shard = sh\<rparr>,
                             dst = \<lparr>host = target c, shard = k\<rparr>\<rparr>] \<and>
        nodes s' = (nodes s)(target c \<mapsto> update (tn\<lparr>tablet_count := tablet_count tn + 1\<rparr>), h \<mapsto> N) \<and>
        move_effect sh g n N)"

definition skipped :: "lb_state \<Rightarrow> lb_state \<Rightarrow> host_id \<Rightarrow> node_load \<Rightarrow> bool" where
  "skipped s s' h n \<longleftrightarrow>
     plan s' = plan s \<and> (\<exists>N. nodes s' = (nodes s)(h \<mapsto> N) \<and> skip_effect n N)"

lemma nodes_push_node [simp]: "nodes (push_back_node_candidate s) = nodes s"
  by (simp add: push_back_node_candidate_def)

lemma nodes_by_load_push_node [simp]:
  "set (nodes_by_load (push_back_node_candidate s)) = set (nodes_by_load s)"
  by (simp add: push_back_node_candidate_def)

lemma nodes_by_load_push_shard [simp]:
  "nodes_by_load (push_back_shard_candidate h s) = nodes_by_load s"
  by (simp add: push_back_shard_candidate_def Let_def)

lemma select_candidate_char:
  assumes r: "select_candidate c h sh s = Next s'"
    and n: "nodes s h = Some n" and tn: "nodes s (target c) = Some tn" and ne: "h \<noteq> target c"
    and sh: "sh < length (shards n)" and cs: "candidates (shards n ! sh) \<noteq> []"
  shows "set (nodes_by_load s') \<subseteq> set (nodes_by_load s) \<and>
         (skipped s s' h n \<or> moved c s s' h n tn)"
proof -
  define g where "g = hd (candidates (shards n ! sh))"
  define n1 where "n1 = n\<lparr>shards := (shards n)[sh := (shards n ! sh)
            \<lparr>candidates := removeAll g (candidates (shards n ! sh))\<rparr>]\<rparr>"
  define s1 where "s1 = s\<lparr>nodes := (nodes s)(h \<mapsto> n1)\<rparr>"
  have na: "node_at (nodes s) h = n" using n by simp
  have e: "select_candidate c h sh s =
      (case check_constraints c h g of
           Inl e \<Rightarrow> Fault e
         | Inr False \<Rightarrow> Next (push_back_node_candidate (push_back_shard_candidate h s1))
         | Inr True \<Rightarrow> Next (emit c h sh g s1))"
    unfolding select_candidate_def Let_def na
    by (simp only: g_def n1_def s1_def)
  have gin: "g \<in> set (candidates (shards n ! sh))" using cs by (simp add: g_def)
  from r[unfolded e] consider
    (skip) "check_constraints c h g = Inr False" "s' = push_back_node_candidate (push_back_shard_candidate h s1)"
    | (move) "check_constraints c h g = Inr True" "s' = emit c h sh g s1"
    by (auto split: sum.splits bool.splits)
  then show ?thesis
  proof cases
    case skip
    define N where "N = n1\<lparr>shards_by_load := push_heap (shards_by_load_cmp n1) (shards_by_load n1)\<rparr>"
    have "nodes s' = (nodes s)(h \<mapsto> N)"
      by (simp add: skip(2) push_back_shard_candidate_def Let_def s1_def N_def)
    moreover have "skip_effect n N"
      unfolding skip_effect_def using sh by (auto simp: N_def n1_def)
    moreover have "plan s' = plan s" by (simp add: skip(2) s1_def)
    moreover have "set (nodes_by_load s') \<subseteq> set (nodes_by_load s)"
      by (simp add: skip(2) s1_def)
    ultimately show ?thesis by (auto simp: skipped_def skip_effect_def)
  next
    case move
    have n1: "nodes s1 h = Some n1" and t1: "nodes s1 (target c) = Some tn"
      using ne tn by (simp_all add: s1_def)
    from emit_char(1)[OF n1 t1 ne, of sh g] obtain N where N:
      "nodes s' = (nodes s1)(target c \<mapsto> update (tn\<lparr>tablet_count := tablet_count tn + 1\<rparr>), h \<mapsto> N)"
      "shard_count N = shard_count n1" "tablet_count N = dec64 (tablet_count n1)"
      "avg_load N = get_avg_load N (tablet_count N)"
      "shards N = (shards n1)[sh := (shards n1 ! sh)
                      \<lparr>sl_tablet_count := dec64 (sl_tablet_count (shards n1 ! sh))\<rparr>]"
      "set (shards_by_load N) \<subseteq> set (shards_by_load n1)"
      unfolding move(2) by blast
    have nodes: "nodes s' = (nodes s)(target c \<mapsto> update (tn\<lparr>tablet_count := tablet_count tn + 1\<rparr>), h \<mapsto> N)"
      unfolding N(1) using ne by (auto simp: s1_def fun_eq_iff)
    have me: "move_effect sh g n N"
      unfolding move_effect_def using N(2-) sh by (simp add: n1_def)
    have pl: "plan s' = plan s @ [\<lparr>mtablet = g, src = \<lparr>host = h, shard = sh\<rparr>,
                             dst = \<lparr>host = target c, shard = fst (next_shard (target_load s1))\<rparr>\<rparr>]"
      unfolding move(2) plan_emit by (simp add: s1_def)
    have nb: "set (nodes_by_load s') \<subseteq> set (nodes_by_load s)"
      using emit_char(2)[OF n1 t1 ne, of sh g] by (simp add: move(2) s1_def)
    have "moved c s s' h n tn"
      unfolding moved_def using sh gin move(1) pl nodes me by blast
    with nb show ?thesis by simp
  qed
qed


lemma skip_effect_sbl:
  "skip_effect (n\<lparr>shards_by_load := sbl\<rparr>) N \<Longrightarrow> set sbl \<subseteq> set (shards_by_load n) \<Longrightarrow> skip_effect n N"
  by (auto simp: skip_effect_def)

lemma move_effect_sbl:
  "move_effect sh g (n\<lparr>shards_by_load := sbl\<rparr>) N \<Longrightarrow> set sbl \<subseteq> set (shards_by_load n) \<Longrightarrow>
   move_effect sh g n N"
  by (auto simp: move_effect_def)

lemma select_shard_char:
  assumes r: "select_shard c h s = Next s'"
    and n: "nodes s h = Some n" and tn: "nodes s (target c) = Some tn" and ne: "h \<noteq> target c"
    and sbl: "shards_by_load n \<noteq> []"
  shows "set (nodes_by_load s') \<subseteq> set (nodes_by_load s) \<and>
         (skipped s s' h n \<or> moved c s s' h n tn)"
proof -
  define sbl where "sbl = pop_heap (shards_by_load_cmp n) (shards_by_load n)"
  define sa where "sa = s\<lparr>nodes := (nodes s)(h \<mapsto> n\<lparr>shards_by_load := butlast sbl\<rparr>)\<rparr>"
  define sb where "sb = s\<lparr>nodes := (nodes s)(h \<mapsto> n\<lparr>shards_by_load := sbl\<rparr>)\<rparr>"
  have na: "node_at (nodes s) h = n" using n by simp
  have e: "select_shard c h s =
     (if last sbl \<ge> length (shards n) then Fault Undefined_Behaviour
         else if candidates (shards n ! last sbl) = [] then Next (push_back_node_candidate sa)
         else select_candidate c h (last sbl) sb)"
    unfolding select_shard_def Let_def na
    by (simp only: sbl_def sa_def sb_def)
  have set_sbl: "set sbl = set (shards_by_load n)" by (simp add: sbl_def)
  show ?thesis
  proof (cases "candidates (shards n ! last sbl) = []")
    case True
    with r have s': "s' = push_back_node_candidate sa" unfolding e by (auto split: if_splits)
    have "skip_effect n (n\<lparr>shards_by_load := butlast sbl\<rparr>)"
      using set_sbl by (auto simp: skip_effect_def dest: in_set_butlastD)
    then have "skipped s s' h n"
      unfolding skipped_def s' by (auto simp: sa_def)
    moreover have "set (nodes_by_load s') \<subseteq> set (nodes_by_load s)" by (simp add: s' sa_def)
    ultimately show ?thesis by simp
  next
    case False
    with r have lt: "last sbl < length (shards n)"
      and sc: "select_candidate c h (last sbl) sb = Next s'"
      unfolding e by (auto split: if_splits)
    have nb: "nodes sb h = Some (n\<lparr>shards_by_load := sbl\<rparr>)" and tb: "nodes sb (target c) = Some tn"
      using ne tn by (simp_all add: sb_def)
    from select_candidate_char[OF sc nb tb ne] lt False
    have sub: "set (nodes_by_load s') \<subseteq> set (nodes_by_load sb)"
      and alt: "skipped sb s' h (n\<lparr>shards_by_load := sbl\<rparr>) \<or> moved c sb s' h (n\<lparr>shards_by_load := sbl\<rparr>) tn"
      by simp_all
    have up: "(nodes sb)(h \<mapsto> N) = (nodes s)(h \<mapsto> N)" for N by (simp add: sb_def)
    have up2: "(nodes sb)(target c \<mapsto> T, h \<mapsto> N) = (nodes s)(target c \<mapsto> T, h \<mapsto> N)" for T N
      using ne by (auto simp: sb_def fun_eq_iff)
    have pb: "plan sb = plan s" by (simp add: sb_def)
    from alt have "skipped s s' h n \<or> moved c s s' h n tn"
    proof
      assume "skipped sb s' h (n\<lparr>shards_by_load := sbl\<rparr>)"
      then have "skipped s s' h n"
        unfolding skipped_def up pb using skip_effect_sbl[where n=n and sbl=sbl] set_sbl by auto
      then show ?thesis ..
    next
      assume "moved c sb s' h (n\<lparr>shards_by_load := sbl\<rparr>) tn"
      then have "moved c s s' h n tn"
        unfolding moved_def up2 pb using move_effect_sbl[where n=n and sbl=sbl] set_sbl by fastforce
      then show ?thesis ..
    qed
    with sub show ?thesis by (simp add: sb_def)
  qed
qed

lemma loop_body_char:
  assumes r: "loop_body c s = Next s'" and g: "nodes_by_load s \<noteq> []"
    and n: "nodes s (last (pop_heap (nodes_cmp (nodes s)) (nodes_by_load s))) = Some n"
    and tn: "nodes s (target c) = Some tn"
  shows "set (nodes_by_load s') \<subseteq> set (nodes_by_load s) \<and>
         (skipped s s' (last (pop_heap (nodes_cmp (nodes s)) (nodes_by_load s))) n \<or>
          (avg_load tn < avg_load n \<and>
           get_avg_load tn (tablet_count tn + 1) \<le> get_avg_load n (dec64 (tablet_count n)) \<and>
           moved c s s' (last (pop_heap (nodes_cmp (nodes s)) (nodes_by_load s))) n tn))"
proof -
  define nbl where "nbl = pop_heap (nodes_cmp (nodes s)) (nodes_by_load s)"
  define h where "h = last nbl"
  define sa where "sa = s\<lparr>max_off_candidate_load := max (max_off_candidate_load s) (avg_load n),
                    nodes_by_load := butlast nbl\<rparr>"
  define sb where "sb = s\<lparr>nodes_by_load := nbl\<rparr>"
  have n': "nodes s h = Some n" using n by (simp add: h_def nbl_def)
  have na: "node_at (nodes s) h = n" using n' by simp
  have ta: "node_at (nodes s) (target c) = tn" using tn by simp
  have e: "loop_body c s =
     (if max (max_off_candidate_load s) (avg_load n) = avg_load tn then Stop
         else if avg_load n \<le> avg_load tn then Stop
         else if get_avg_load n (dec64 (tablet_count n)) < get_avg_load tn (tablet_count tn + 1) then Stop
         else if shards_by_load n = [] then Next sa
         else select_shard c h sb)"
    unfolding loop_body_def Let_def nbl_def[symmetric] h_def[symmetric] na ta
    by (simp only: sa_def sb_def)
  have set_nbl: "set nbl = set (nodes_by_load s)" by (simp add: nbl_def)
  from r[unfolded e] have lt: "avg_load tn < avg_load n"
    and le: "get_avg_load tn (tablet_count tn + 1) \<le> get_avg_load n (dec64 (tablet_count n))"
    by (auto split: if_splits)
  from lt n' tn have ne: "h \<noteq> target c" by auto
  show ?thesis
    unfolding nbl_def[symmetric] h_def[symmetric]
  proof (cases "shards_by_load n = []")
    case True
    with r[unfolded e] have s': "s' = sa" by (auto split: if_splits)
    have "(nodes s)(h \<mapsto> n) = nodes s" using n' by (rule fun_upd_idem)
    then have "skipped s s' h n"
      unfolding skipped_def s' by (auto simp: sa_def skip_effect_def intro!: exI[of _ n])
    moreover have "set (nodes_by_load s') \<subseteq> set (nodes_by_load s)"
      using set_nbl by (auto simp: s' sa_def dest: in_set_butlastD)
    ultimately show "set (nodes_by_load s') \<subseteq> set (nodes_by_load s) \<and>
         (skipped s s' h n \<or>
          (avg_load tn < avg_load n \<and>
           get_avg_load tn (tablet_count tn + 1) \<le> get_avg_load n (dec64 (tablet_count n)) \<and>
           moved c s s' h n tn))" by simp
  next
    case False
    with r[unfolded e] have ss: "select_shard c h sb = Next s'" by (auto split: if_splits)
    have nb: "nodes sb h = Some n" "nodes sb (target c) = Some tn" using n' tn by (simp_all add: sb_def)
    from select_shard_char[OF ss nb ne False]
    have "set (nodes_by_load s') \<subseteq> set (nodes_by_load sb)"
      "skipped sb s' h n \<or> moved c sb s' h n tn" by simp_all
    moreover have "skipped sb s' h n = skipped s s' h n" by (simp add: skipped_def sb_def)
    moreover have "moved c sb s' h n tn = moved c s s' h n tn" by (simp add: moved_def sb_def)
    ultimately show "set (nodes_by_load s') \<subseteq> set (nodes_by_load s) \<and>
         (skipped s s' h n \<or>
          (avg_load tn < avg_load n \<and>
           get_avg_load tn (tablet_count tn + 1) \<le> get_avg_load n (dec64 (tablet_count n)) \<and>
           moved c s s' h n tn))"
      using lt le set_nbl by (auto simp: sb_def)
  qed
qed


lemma get_avg_load_cong: "shard_count N = shard_count n \<Longrightarrow> get_avg_load N k = get_avg_load n k"
  by (simp add: get_avg_load_def)

lemma node_ok_other: "h \<noteq> target c \<Longrightarrow> node_ok c k h n \<Longrightarrow> node_ok c k' h n"
  by (simp add: node_ok_def)

lemma node_ok_skip:
  assumes "node_ok c k h n" and "skip_effect n N"
  shows "node_ok c k h N"
proof -
  from assms(2) have f: "shard_count N = shard_count n" "tablet_count N = tablet_count n"
    "avg_load N = avg_load n" "set (shards_by_load N) \<subseteq> set (shards_by_load n)"
    by (simp_all add: skip_effect_def)
  from assms(2) consider (same) "shards N = shards n"
    | (rem) sh g where "sh < length (shards n)"
        "shards N = (shards n)[sh := (shards n ! sh)\<lparr>candidates := removeAll g (candidates (shards n ! sh))\<rparr>]"
    by (auto simp: skip_effect_def)
  then have "shards_ok (tm c) h N \<and> shard_sum N = shard_sum n"
  proof cases
    case same
    with assms(1) f(4) show ?thesis
      by (auto simp: node_ok_def intro: shards_ok_cong shard_sum_cong)
  next
    case rem
    let ?n1 = "n\<lparr>shards := (shards n)[sh := (shards n ! sh)\<lparr>candidates := removeAll g (candidates (shards n ! sh))\<rparr>]\<rparr>"
    have "shards_ok (tm c) h ?n1" using assms(1) rem(1) by (simp add: node_ok_def shards_ok_remove)
    then have "shards_ok (tm c) h N"
      by (rule shards_ok_cong[rotated 2]) (use rem(2) f(4) in simp_all)
    moreover have "shard_sum N = shard_sum ?n1" by (rule shard_sum_cong) (simp add: rem(2))
    ultimately show ?thesis by (simp add: shard_sum_remove)
  qed
  with assms(1) f show ?thesis
    by (simp add: node_ok_def get_avg_load_cong[OF f(1)])
qed

lemma node_ok_move_target:
  assumes "node_ok c k (target c) tn"
  shows "node_ok c (Suc k) (target c) (update (tn\<lparr>tablet_count := tablet_count tn + 1\<rparr>))"
proof -
  have "shards_ok (tm c) (target c) (update (tn\<lparr>tablet_count := tablet_count tn + 1\<rparr>))"
    by (rule shards_ok_cong[of _ tn]) (use assms in \<open>simp_all add: node_ok_def\<close>)
  moreover have "shard_sum (update (tn\<lparr>tablet_count := tablet_count tn + 1\<rparr>)) = shard_sum tn"
    by (rule shard_sum_cong) simp
  ultimately show ?thesis using assms by (simp add: node_ok_def get_avg_load_def)
qed

lemma length_removeAll_mem: "g \<in> set cs \<Longrightarrow> length (removeAll g cs) < length cs"
  by (induction cs) (auto simp: less_Suc_eq_le length_removeAll_less_eq)

lemma node_ok_move_src:
  assumes ok: "node_ok c k h n" and ne: "h \<noteq> target c" and sh: "sh < length (shards n)"
    and g: "g \<in> set (candidates (shards n ! sh))" and me: "move_effect sh g n N"
  shows "node_ok c k' h N" and "0 < tablet_count n" and "tablet_count N = tablet_count n - 1"
proof -
  let ?n1 = "n\<lparr>shards := (shards n)[sh := (shards n ! sh)\<lparr>candidates := removeAll g (candidates (shards n ! sh))\<rparr>]\<rparr>"
  let ?n2 = "?n1\<lparr>shards := (shards ?n1)[sh := (shards ?n1 ! sh)
            \<lparr>sl_tablet_count := dec64 (sl_tablet_count (shards ?n1 ! sh))\<rparr>]\<rparr>"
  from me have f: "shard_count N = shard_count n" "tablet_count N = dec64 (tablet_count n)"
    "avg_load N = get_avg_load N (tablet_count N)" "set (shards_by_load N) \<subseteq> set (shards_by_load n)"
    "shards N = (shards n)[sh := (shards n ! sh)
                  \<lparr>candidates := removeAll g (candidates (shards n ! sh)),
                   sl_tablet_count := dec64 (sl_tablet_count (shards n ! sh))\<rparr>]"
    by (simp_all add: move_effect_def)
  from ok have sok: "shards_ok (tm c) h n" and tc: "tablet_count n = shard_sum n"
    using ne by (simp_all add: node_ok_def)
  from sok sh have le: "length (candidates (shards n ! sh)) \<le> sl_tablet_count (shards n ! sh)"
    by (simp add: shards_ok_def)
  from length_removeAll_mem[OF g] le
  have lt: "length (removeAll g (candidates (shards n ! sh))) < sl_tablet_count (shards n ! sh)"
    by simp
  then have pos: "0 < sl_tablet_count (shards n ! sh)" by simp
  with shard_sum_ge[OF sh] tc show tpos: "0 < tablet_count n" by simp
  then show tcN: "tablet_count N = tablet_count n - 1" by (simp add: f(2) dec64_pos)
  have ok1: "shards_ok (tm c) h ?n1" using sok sh by (rule shards_ok_remove)
  have ok2: "shards_ok (tm c) h ?n2"
    by (rule shards_ok_dec[OF ok1]) (use sh lt in simp_all)
  have s2: "shards ?n2 = shards N" using sh by (simp add: f(5))
  have "shards_ok (tm c) h N"
  proof (rule shards_ok_cong[OF _ _ ok2])
    show "shards N = shards ?n2" by (rule s2[symmetric])
    show "set (shards_by_load N) \<subseteq> set (shards_by_load ?n2)" using f(4) by simp
  qed
  moreover have "shard_sum N + 1 = shard_sum n"
  proof -
    have "shard_sum N = shard_sum ?n2" by (rule shard_sum_cong) (rule s2[symmetric])
    moreover have "shard_sum ?n2 + 1 = shard_sum ?n1"
      by (rule shard_sum_dec) (use sh pos in simp_all)
    moreover have "shard_sum ?n1 = shard_sum n" by (rule shard_sum_remove)
    ultimately show ?thesis by simp
  qed
  ultimately show "node_ok c k' h N"
    using ok ne f(1,3) tcN tc by (simp add: node_ok_def)
qed

lemma lb_inv_step:
  assumes inv: "lb_inv c s" and g: "nodes_by_load s \<noteq> []" and r: "loop_body c s = Next s'"
  shows "lb_inv c s'"
proof -
  define h where "h = last (pop_heap (nodes_cmp (nodes s)) (nodes_by_load s))"
  have "h \<in> set (nodes_by_load s)" unfolding h_def using g by (rule last_pop_heap_in_set)
  with inv obtain n where n: "nodes s h = Some n" by (auto simp: lb_inv_def)
  from inv obtain tn where tn: "nodes s (target c) = Some tn" by (auto simp: lb_inv_def)
  from inv have sub: "set (nodes_by_load s) \<subseteq> dom (nodes s)" by (simp add: lb_inv_def)
  from inv n have okn: "node_ok c (length (plan s)) h n" by (simp add: lb_inv_def)
  from inv tn have okt: "node_ok c (length (plan s)) (target c) tn" by (simp add: lb_inv_def)
  from loop_body_char[OF r g n[unfolded h_def] tn, folded h_def]
  have sub': "set (nodes_by_load s') \<subseteq> set (nodes_by_load s)"
    and alt: "skipped s s' h n \<or> (avg_load tn < avg_load n \<and> moved c s s' h n tn)"
    by auto
  from alt show ?thesis
  proof
    assume "skipped s s' h n"
    then obtain N where N: "plan s' = plan s" "nodes s' = (nodes s)(h \<mapsto> N)" "skip_effect n N"
      by (auto simp: skipped_def)
    have "node_ok c (length (plan s)) h N" by (rule node_ok_skip[OF okn N(3)])
    with inv sub' sub n show ?thesis
      unfolding lb_inv_def N(1,2) by auto
  next
    assume "avg_load tn < avg_load n \<and> moved c s s' h n tn"
    then obtain sh g k N where lt: "avg_load tn < avg_load n" and m: "sh < length (shards n)"
      "g \<in> set (candidates (shards n ! sh))"
      "plan s' = plan s @ [\<lparr>mtablet = g, src = \<lparr>host = h, shard = sh\<rparr>, dst = \<lparr>host = target c, shard = k\<rparr>\<rparr>]"
      "nodes s' = (nodes s)(target c \<mapsto> update (tn\<lparr>tablet_count := tablet_count tn + 1\<rparr>), h \<mapsto> N)"
      "move_effect sh g n N"
      by (auto simp: moved_def)
    from lt n tn have ne: "h \<noteq> target c" by auto
    have 1: "node_ok c (length (plan s')) h N"
      by (rule node_ok_move_src(1)[OF okn ne m(1,2,5)])
    have 2: "node_ok c (length (plan s')) (target c) (update (tn\<lparr>tablet_count := tablet_count tn + 1\<rparr>))"
      using node_ok_move_target[OF okt] by (simp add: m(3))
    have 3: "node_ok c (length (plan s')) h' x" if "nodes s h' = Some x" "h' \<noteq> target c" for h' x
      using inv that by (auto simp: lb_inv_def intro: node_ok_other)
    show ?thesis
      unfolding lb_inv_def
    proof (intro conjI allI impI)
      fix h' x assume "nodes s' h' = Some x"
      then show "node_ok c (length (plan s')) h' x"
        using 1 2 3 ne by (cases "h' = h"; cases "h' = target c") (auto simp: m(4))
    next
      show "set (nodes_by_load s') \<subseteq> dom (nodes s')"
        using sub' sub by (auto simp: m(4))
      show "target c \<in> dom (nodes s')" by (simp add: m(4))
    qed
  qed
qed

lemma lb_inv_after:
  "lb_inv c s \<Longrightarrow> after_iterations k c s = Some s' \<Longrightarrow> lb_inv c s'"
proof (induction k arbitrary: s)
  case 0
  then show ?case by simp
next
  case (Suc k)
  from Suc.prems(2) obtain s1 where g: "nodes_by_load s \<noteq> []" and b: "loop_body c s = Next s1"
    and r: "after_iterations k c s1 = Some s'"
    by (auto split: if_splits outcome.splits)
  from Suc.IH[OF lb_inv_step[OF Suc.prems(1) g b] r] show ?case .
qed


lemma shards_ok_fresh:
  "shards n = replicate k empty_shard_load \<Longrightarrow> shards_by_load n = [] \<Longrightarrow> shards_ok t h n"
  by (simp add: shards_ok_def empty_shard_load_def)

lemma shard_sum_fresh: "shards n = replicate k empty_shard_load \<Longrightarrow> shard_sum n = 0"
  by (simp add: shard_sum_def empty_shard_load_def)

lemma prepare_Ready_char:
  assumes r: "prepare t d = Inr (Ready c s)"
  shows "\<exists>ns1 ns2 ns3 mx mn. compute_node_load t d = Inr ns1 \<and>
           compute_imbalance (node_keys d (get_topology t)) (ns1, 0, 0, None) = (ns2, mx, mn, Some (target c)) \<and>
           mx \<noteq> mn \<and> mn = load_of ns1 (target c) \<and>
           (\<forall>h\<in>set (node_keys d (get_topology t)). mn \<le> load_of ns1 h) \<and>
           target c \<in> set (node_keys d (get_topology t)) \<and>
           fold_err (\<lambda>(g, r). add_candidate g r) (all_replicas t) ns2 = Inr ns3 \<and>
           nodes s = make_shard_heaps (node_keys d (get_topology t)) ns3 \<and>
           set (nodes_by_load s) = set (node_keys d (get_topology t)) \<and>
           max_off_candidate_load s = 0"
proof -
  from r obtain ns1 where A: "compute_node_load t d = Inr ns1"
    by (cases "compute_node_load t d") (auto simp: prepare_def)
  obtain ns2 mx mn mnode where I: "compute_imbalance (node_keys d (get_topology t)) (ns1, 0, 0, None) = (ns2, mx, mn, mnode)"
    by (metis prod_cases4)
  have ne: "mx \<noteq> mn" using prepare_char(2)[OF A I] r by auto
  from prepare_char(3)[OF A I ne] obtain tgt tn where
    t: "mnode = Some tgt" "tgt \<in> set (node_keys d (get_topology t))" "mn = load_of ns1 tgt"
      "\<forall>h\<in>set (node_keys d (get_topology t)). mn \<le> load_of ns1 h"
    and alt: "if pending t then prepare t d = Inr Pending
            else \<exists>ns3. fold_err (\<lambda>(g, r). add_candidate g r) (all_replicas t) ns2 = Inr ns3 \<and>
                   prepare t d = Inr (Ready
                     \<lparr>tm = t, dc_name = d, target = tgt, target_node = tn,
                      batch_size = get_shard_count tn\<rparr>
                     \<lparr>nodes = make_shard_heaps (node_keys d (get_topology t)) ns3,
                      nodes_by_load = make_heap (nodes_cmp (make_shard_heaps (node_keys d (get_topology t)) ns3))
                                        (node_keys d (get_topology t)),
                      target_load = populate t tgt, plan = [], max_off_candidate_load = 0\<rparr>)"
    by blast
  from alt r have np: "\<not> pending t" by (auto split: if_splits)
  with alt r obtain ns3 where f: "fold_err (\<lambda>(g, r). add_candidate g r) (all_replicas t) ns2 = Inr ns3"
    and c: "c = \<lparr>tm = t, dc_name = d, target = tgt, target_node = tn, batch_size = get_shard_count tn\<rparr>"
    and s: "s = \<lparr>nodes = make_shard_heaps (node_keys d (get_topology t)) ns3,
                      nodes_by_load = make_heap (nodes_cmp (make_shard_heaps (node_keys d (get_topology t)) ns3))
                                        (node_keys d (get_topology t)),
                      target_load = populate t tgt, plan = [], max_off_candidate_load = 0\<rparr>"
    by auto
  have tc: "target c = tgt" by (simp add: c)
  show ?thesis
    using A I[unfolded t(1)] ne t(2,3,4) f unfolding tc
    by (intro exI[of _ ns1] exI[of _ ns2] exI[of _ ns3] exI[of _ mx] exI[of _ mn]) (simp add: s)
qed

lemma prepare_lb_inv:
  assumes r: "prepare t d = Inr (Ready c s)"
  shows "lb_inv c s"
proof -
  let ?keys = "node_keys d (get_topology t)"
  note ctx = prepare_Ready[OF r]
  from prepare_Ready_char[OF r] obtain ns1 ns2 ns3 mx mn where
    A: "compute_node_load t d = Inr ns1"
    and I: "compute_imbalance ?keys (ns1, 0, 0, None) = (ns2, mx, mn, Some (target c))"
    and tk: "target c \<in> set ?keys"
    and f: "fold_err (\<lambda>(g, r). add_candidate g r) (all_replicas t) ns2 = Inr ns3"
    and ns: "nodes s = make_shard_heaps ?keys ns3"
    and nbl: "set (nodes_by_load s) = set ?keys"
    by blast
  note ch = compute_node_load_char[OF A]
  have ns2: "ns2 h = map_option update (ns1 h)" for h by (rule prepare_char(1)[OF A I])
  have d2: "dom ns2 = set ?keys" unfolding ch(4)[symmetric] by (auto simp: ns2 dom_def)
  have d3: "dom ns3 = set ?keys" using add_fold_dom[OF f] d2 by simp
  have sub: "set ?keys \<subseteq> dom ns3" using d3 by simp
  note heaps = make_shard_heaps_rel[OF sub]
  have d4: "dom (nodes s) = set ?keys" unfolding ns using heaps d3 by simp
  have ok: "node_ok c (length (plan s)) h x" if x: "nodes s h = Some x" for h x
  proof -
    from x d4 d3 obtain n3 where n3: "ns3 h = Some n3" by (metis domD domI)
    from heaps n3 obtain sbl where sbl: "nodes s h = Some (n3\<lparr>shards_by_load := sbl\<rparr>)"
      "set sbl = set (shards_by_load n3)" unfolding ns by blast
    with x have xe: "x = n3\<lparr>shards_by_load := sbl\<rparr>" by simp
    from n3 d3 d2 obtain n2 where n2: "ns2 h = Some n2" by (metis domD domI)
    then obtain n1 where n1: "ns1 h = Some n1" "n2 = update n1" unfolding ns2 by auto
    from n1(1) obtain nd where nd: "find_node (get_topology t) h = Some nd" "selected d nd"
      "n1 = counted_node_load t h nd"
      unfolding ch(1) by (auto split: option.splits if_splits)
    from add_fold_rel[OF f n2] n3 have rel: "shard_count n3 = shard_count n2"
      "tablet_count n3 = tablet_count n2" "avg_load n3 = avg_load n2"
      "shard_sum n3 = shard_sum n2 + replicas_on h (all_replicas t)"
      by auto
    have ok2: "shards_ok t h' n" if "ns2 h' = Some n" for h' n
    proof -
      from that obtain m where "ns1 h' = Some m" "n = update m" unfolding ns2 by auto
      then show ?thesis
        unfolding ch(1) by (auto split: option.splits if_splits intro!: shards_ok_fresh)
    qed
    have v: "\<forall>(g, r)\<in>set (all_replicas t). \<exists>rs. tablet_replicas t g = Some rs \<and> r \<in> set rs"
      using tagged_replicas_valid by blast
    have ok3: "shards_ok t h n3" by (rule add_fold_shards_ok[OF f v ok2 n3])
    have okx: "shards_ok t h x"
      by (rule shards_ok_cong[OF _ _ ok3]) (simp_all add: xe sbl(2))
    have s2: "shard_sum n2 = 0" unfolding n1(2) nd(3)
      by (rule shard_sum_fresh[of _ "get_shard_count nd"]) simp
    have tcx: "tablet_count x = shard_sum x"
      using rel(2,4) s2 by (simp add: xe n1(2) nd(3) shard_sum_def)
    have scx: "shard_count x = get_shard_count nd" using rel(1) by (simp add: xe n1(2) nd(3))
    have avx: "avg_load x = get_avg_load x (tablet_count x)"
      using rel(1,2,3) by (simp add: xe n1(2) nd(3) get_avg_load_def)
    from ch(2)[OF nd(1,2)] have pos: "0 < shard_count x" by (simp add: scx)
    from nd(2) have "dc (dc_rack nd) = d" by (simp add: selected_def)
    with nd(1) pos avx okx tcx show ?thesis
      by (simp add: node_ok_def ctx)
  qed
  show ?thesis
    unfolding lb_inv_def using ok d4 nbl tk by auto
qed

subsection \<open>The loop raises no error on a snapshot whose replicas sit on known hosts\<close>

definition replicas_known :: "token_metadata \<Rightarrow> bool" where
  "replicas_known t \<longleftrightarrow> (\<forall>(g, r)\<in>set (all_replicas t). find_node (get_topology t) (host r) \<noteq> None)"

definition zero_shard_node :: "token_metadata \<Rightarrow> string \<Rightarrow> bool" where
  "zero_shard_node t d \<longleftrightarrow>
     (\<exists>(h, nd)\<in>set (for_each_node (get_topology t)). selected d nd \<and> get_shard_count nd = 0)"

definition bad_shard_replica :: "token_metadata \<Rightarrow> string \<Rightarrow> bool" where
  "bad_shard_replica t d \<longleftrightarrow>
     (\<exists>(g, r)\<in>set (all_replicas t).
        case find_node (get_topology t) (host r) of
          None \<Rightarrow> False
        | Some nd \<Rightarrow> selected d nd \<and> get_shard_count nd \<le> shard r)"

lemma all_replicas_complete:
  assumes "tablet_replicas t g = Some rs" and "r \<in> set rs"
  shows "(g, r) \<in> set (all_replicas t)"
proof -
  from assms(1) obtain tmap where m: "map_of (tablets t) (table g) = Some tmap"
    and l: "tablet g < length (tablet_list tmap)" and rs: "rs = replicas (tablet_list tmap ! tablet g)"
    by (auto simp: tablet_replicas_def get_tablet_map_def get_tablet_info_def
        split: option.splits sum.splits if_splits)
  have a: "(table g, tmap) \<in> set (all_tables (tablets t))"
    unfolding all_tables_def by (rule clearjunk_complete[OF m])
  have b: "(tablet g, tablet_list tmap ! tablet g) \<in> set (for_each_tablet tmap)"
    using l by (simp add: for_each_tablet_def in_set_enumerate_eq)
  have g: "\<lparr>table = table g, tablet = tablet g\<rparr> = g" by simp
  have "(g, r) \<in> set (table_replicas (table g, tmap))"
    unfolding table_replicas_def fst_conv snd_conv set_concat set_map
  proof (rule UN_I[OF imageI[OF b]])
    show "(g, r) \<in> set (case (tablet g, tablet_list tmap ! tablet g) of
            (tid, ti) \<Rightarrow> map (Pair \<lparr>table = table g, tablet = tid\<rparr>) (replicas ti))"
      using assms(2) by (simp add: rs g)
  qed
  then show ?thesis
    unfolding all_replicas_def tagged_replicas_def set_concat set_map using a by blast
qed

lemma scan_replicas_no_error:
  "\<forall>r\<in>set rs. find_node topo (host r) \<noteq> None \<Longrightarrow> \<exists>b rl'. scan_replicas topo d tgt sr rs rl = Inr (b, rl')"
proof (induction rs arbitrary: rl)
  case Nil
  then show ?case by auto
next
  case (Cons r rs)
  from Cons.prems obtain n where n: "find_node topo (host r) = Some n" by auto
  have g: "get_node topo (host r) = Inr n" by (simp add: get_node_def n)
  from Cons.prems have rest: "\<forall>r\<in>set rs. find_node topo (host r) \<noteq> None" by simp
  show ?case
    using Cons.IH[OF rest] by (auto simp: g)
qed

lemma rack_count_pos:
  assumes "r \<in> set rs" and "find_node topo (host r) = Some nd" and "dc (dc_rack nd) = d"
  shows "0 < rack_count topo d rs (rack (dc_rack nd))"
proof -
  have "r \<in> set (filter (in_rack topo d (rack (dc_rack nd))) rs)"
    using assms by (simp add: in_rack_def)
  then have "0 < length (filter (in_rack topo d (rack (dc_rack nd))) rs)"
    by (rule length_pos_if_in_set)
  then show ?thesis by (simp add: rack_count_def)
qed

lemma check_constraints_no_error:
  assumes f: "find_node (get_topology (tm c)) h = Some nd" and d: "dc (dc_rack nd) = dc_name c"
    and rs: "tablet_replicas (tm c) g = Some rs" and m: "\<lparr>host = h, shard = i\<rparr> \<in> set rs"
    and k: "\<forall>r\<in>set rs. find_node (get_topology (tm c)) (host r) \<noteq> None"
  shows "\<exists>b. check_constraints c h g = Inr b"
proof -
  from rs obtain tmap ti where tmap: "get_tablet_map (tablets (tm c)) (table g) = Inr tmap"
    and ti: "get_tablet_info tmap (tablet g) = Inr ti" and r: "rs = replicas ti"
    by (auto simp: tablet_replicas_def split: sum.splits)
  have gn: "get_node (get_topology (tm c)) h = Inr nd" by (simp add: get_node_def f)
  define sr where "sr = (rack (dc_rack (target_node c)) = rack (dc_rack nd))"
  from scan_replicas_no_error[OF k, of "dc_name c" "target c" sr "[]"] obtain b rl where
    sc: "scan_replicas (get_topology (tm c)) (dc_name c) (target c) sr rs [] = Inr (b, rl)"
    by blast
  have e: "check_constraints c h g =
     (if b then Inr False
      else if \<not> sr then
        (case max_rack_load rl of
           Inl e \<Rightarrow> Inl e
         | Inr max_rl \<Rightarrow>
             (let new_rack_load = rack_load_at rl (rack (dc_rack (target_node c))) + 1
              in if new_rack_load > max_rl then Inr False else Inr True))
      else Inr True)"
    unfolding check_constraints_def Let_def
    by (simp add: gn tmap ti sr_def[symmetric] r[symmetric] sc)
  show ?thesis
  proof (cases "b \<or> sr")
    case True
    then show ?thesis unfolding e by auto
  next
    case False
    then have sc': "scan_replicas (get_topology (tm c)) (dc_name c) (target c) False rs [] = Inr (False, rl)"
      using sc by simp
    from scan_replicas_rack_load[OF sc'] have
      "rack_load_at rl (rack (dc_rack nd)) = rack_count (get_topology (tm c)) (dc_name c) rs (rack (dc_rack nd))"
      by (simp add: rack_load_at_def)
    moreover have "0 < rack_count (get_topology (tm c)) (dc_name c) rs (rack (dc_rack nd))"
      by (rule rack_count_pos[OF m _ d]) (simp add: f)
    ultimately have "rl \<noteq> []" by (auto simp: rack_load_at_def)
    then obtain mx where "max_rack_load rl = Inr mx"
      by (cases rl) (auto simp: max_rack_load_def)
    with False show ?thesis unfolding e by (auto simp: Let_def)
  qed
qed


lemma select_candidate_Fault:
  "select_candidate c h sh s = Fault e \<Longrightarrow>
   check_constraints c h (hd (candidates (shards (node_at (nodes s) h) ! sh))) = Inl e"
  unfolding select_candidate_def Let_def by (auto split: sum.splits bool.splits)

lemma select_shard_Fault:
  assumes "select_shard c h s = Fault e" and n: "nodes s h = Some n"
  shows "length (shards n) \<le> last (pop_heap (shards_by_load_cmp n) (shards_by_load n)) \<or>
         check_constraints c h (hd (candidates (shards n !
            last (pop_heap (shards_by_load_cmp n) (shards_by_load n))))) = Inl e"
proof -
  define sbl where "sbl = pop_heap (shards_by_load_cmp n) (shards_by_load n)"
  define sb where "sb = s\<lparr>nodes := (nodes s)(h \<mapsto> n\<lparr>shards_by_load := sbl\<rparr>)\<rparr>"
  have na: "node_at (nodes s) h = n" using n by simp
  have e: "select_shard c h s =
     (if last sbl \<ge> length (shards n) then Fault Undefined_Behaviour
         else if candidates (shards n ! last sbl) = [] then
           Next (push_back_node_candidate (s\<lparr>nodes := (nodes s)(h \<mapsto> n\<lparr>shards_by_load := butlast sbl\<rparr>)\<rparr>))
         else select_candidate c h (last sbl) sb)"
    unfolding select_shard_def Let_def na by (simp only: sbl_def sb_def)
  show ?thesis
  proof (cases "length (shards n) \<le> last sbl")
    case True
    then show ?thesis by (simp add: sbl_def)
  next
    case False
    with assms(1) have "select_candidate c h (last sbl) sb = Fault e"
      unfolding e by (auto split: if_splits)
    from select_candidate_Fault[OF this] show ?thesis
      by (simp add: sb_def sbl_def)
  qed
qed

lemma loop_body_Fault:
  assumes "loop_body c s = Fault e"
    and n: "nodes s (last (pop_heap (nodes_cmp (nodes s)) (nodes_by_load s))) = Some n"
  shows "shards_by_load n \<noteq> [] \<and>
     (length (shards n) \<le> last (pop_heap (shards_by_load_cmp n) (shards_by_load n)) \<or>
      check_constraints c (last (pop_heap (nodes_cmp (nodes s)) (nodes_by_load s)))
        (hd (candidates (shards n ! last (pop_heap (shards_by_load_cmp n) (shards_by_load n))))) = Inl e)"
proof -
  define nbl where "nbl = pop_heap (nodes_cmp (nodes s)) (nodes_by_load s)"
  define h where "h = last nbl"
  define sb where "sb = s\<lparr>nodes_by_load := nbl\<rparr>"
  have n': "nodes s h = Some n" using n by (simp add: h_def nbl_def)
  have na: "node_at (nodes s) h = n" using n' by simp
  from assms(1) have "shards_by_load n \<noteq> [] \<and> select_shard c h sb = Fault e"
    unfolding loop_body_def Let_def nbl_def[symmetric] h_def[symmetric] na sb_def[symmetric]
    by (auto split: if_splits)
  moreover have "nodes sb h = Some n" using n' by (simp add: sb_def)
  ultimately show ?thesis
    using select_shard_Fault[of c h sb e n] unfolding nbl_def[symmetric] h_def[symmetric] by blast
qed

lemma loop_body_no_fault:
  assumes inv: "lb_inv c s" and known: "replicas_known (tm c)" and g: "nodes_by_load s \<noteq> []"
  shows "loop_body c s \<noteq> Fault e"
proof
  assume f: "loop_body c s = Fault e"
  define h where "h = last (pop_heap (nodes_cmp (nodes s)) (nodes_by_load s))"
  have "h \<in> set (nodes_by_load s)" unfolding h_def using g by (rule last_pop_heap_in_set)
  with inv obtain n where n: "nodes s h = Some n" by (auto simp: lb_inv_def)
  from inv n have ok: "node_ok c (length (plan s)) h n" by (simp add: lb_inv_def)
  define sh where "sh = last (pop_heap (shards_by_load_cmp n) (shards_by_load n))"
  from loop_body_Fault[OF f n[unfolded h_def], folded h_def sh_def]
  have ne: "shards_by_load n \<noteq> []"
    and alt: "length (shards n) \<le> sh \<or> check_constraints c h (hd (candidates (shards n ! sh))) = Inl e"
    by simp_all
  from ok have sok: "shards_ok (tm c) h n" by (simp add: node_ok_def)
  have "sh \<in> set (shards_by_load n)" unfolding sh_def using ne by (rule last_pop_heap_in_set)
  with sok have lt: "sh < length (shards n)" by (auto simp: shards_ok_def)
  with alt have cc: "check_constraints c h (hd (candidates (shards n ! sh))) = Inl e" by simp
  have cne: "candidates (shards n ! sh) \<noteq> []"
  proof
    assume em: "candidates (shards n ! sh) = []"
    define nbl where "nbl = pop_heap (nodes_cmp (nodes s)) (nodes_by_load s)"
    have na: "node_at (nodes s) h = n" using n by simp
    have nb: "node_at (nodes (s\<lparr>nodes_by_load := nbl\<rparr>)) h = n" using n by simp
    from f ne have "select_shard c h (s\<lparr>nodes_by_load := nbl\<rparr>) = Fault e"
      unfolding loop_body_def Let_def nbl_def[symmetric] h_def[unfolded nbl_def[symmetric], symmetric] na
      by (auto split: if_splits)
    then show False
      unfolding select_shard_def Let_def nb sh_def[symmetric]
      using lt em by (auto split: if_splits)
  qed
  then have "hd (candidates (shards n ! sh)) \<in> set (candidates (shards n ! sh))" by simp
  with sok lt obtain rs where rs: "tablet_replicas (tm c) (hd (candidates (shards n ! sh))) = Some rs"
    "\<lparr>host = h, shard = sh\<rparr> \<in> set rs"
    unfolding shards_ok_def by blast
  from ok obtain nd where nd: "find_node (get_topology (tm c)) h = Some nd" "dc (dc_rack nd) = dc_name c"
    by (auto simp: node_ok_def)
  have k: "\<forall>r\<in>set rs. find_node (get_topology (tm c)) (host r) \<noteq> None"
    using known all_replicas_complete[OF rs(1)] unfolding replicas_known_def by blast
  from check_constraints_no_error[OF nd rs k] cc show False by auto
qed

lemma loop_no_fault:
  "lb_inv c s \<Longrightarrow> replicas_known (tm c) \<Longrightarrow> \<exists>p. loop c s = Inr p"
proof (induction c s rule: loop.induct)
  case (1 c s)
  show ?case
  proof (cases "length (plan s) < batch_size c \<and> nodes_by_load s \<noteq> []")
    case False
    then show ?thesis by (auto simp: loop.simps[of c s])
  next
    case g: True
    show ?thesis
    proof (cases "loop_body c s")
      case Stop
      with g show ?thesis by (auto simp: loop.simps[of c s])
    next
      case (Fault e)
      with loop_body_no_fault[OF "1.prems"] g show ?thesis by blast
    next
      case (Next s1)
      have "lb_inv c s1" using lb_inv_step[OF "1.prems"(1) _ Next] g by simp
      from "1.IH"[OF g Next this "1.prems"(2)] show ?thesis
        using g Next by (simp add: loop.simps[of c s])
    qed
  qed
qed


definition run_iterations :: "nat \<Rightarrow> token_metadata \<Rightarrow> string \<Rightarrow> (lb_context \<times> lb_state) option" where
  "run_iterations k t d =
     (case prepare t d of
        Inr (Ready c s) \<Rightarrow> map_option (Pair c) (after_iterations k c s)
      | _ \<Rightarrow> None)"

lemma run_iterations_Some:
  "run_iterations k t d = Some (c, s) \<longleftrightarrow>
     (\<exists>s0. prepare t d = Inr (Ready c s0) \<and> after_iterations k c s0 = Some s)"
  unfolding run_iterations_def by (auto split: sum.splits prepared.splits)

lemma run_iterations_None:
  "prepare t d = Inr (Ready c s0) \<Longrightarrow> run_iterations k t d = None \<longleftrightarrow> after_iterations k c s0 = None"
  unfolding run_iterations_def by simp

lemma after_iterations_Suc_end:
  "after_iterations (Suc k) c s0 = Some s' \<longleftrightarrow>
     (\<exists>s. after_iterations k c s0 = Some s \<and> length (plan s) < batch_size c \<and>
          nodes_by_load s \<noteq> [] \<and> loop_body c s = Next s')"
proof (induction k arbitrary: s0)
  case 0
  show ?case by (auto split: outcome.splits)
next
  case (Suc k)
  show ?case
  proof (cases "length (plan s0) < batch_size c \<and> nodes_by_load s0 \<noteq> []")
    case False
    then show ?thesis by auto
  next
    case g: True
    show ?thesis
    proof (cases "loop_body c s0")
      case (Next s1)
      have "after_iterations (Suc (Suc k)) c s0 = after_iterations (Suc k) c s1"
        using g Next by simp
      moreover have "after_iterations (Suc k) c s0 = after_iterations k c s1"
        using g Next by simp
      ultimately show ?thesis using Suc.IH[of s1] by simp
    qed (use g in auto)
  qed
qed

lemma run_iterations_step:
  assumes "run_iterations k t d = Some (c, s)" and "run_iterations (Suc k) t d = Some (c', s')"
  shows "c' = c" and "length (plan s) < batch_size c" and "nodes_by_load s \<noteq> []"
    and "loop_body c s = Next s'" and "lb_inv c s"
proof -
  from assms(1) obtain s0 where p: "prepare t d = Inr (Ready c s0)" and a: "after_iterations k c s0 = Some s"
    unfolding run_iterations_Some by blast
  from assms(2) p have b: "after_iterations (Suc k) c s0 = Some s'" and c: "c' = c"
    unfolding run_iterations_Some by auto
  from b a show "length (plan s) < batch_size c" "nodes_by_load s \<noteq> []" "loop_body c s = Next s'"
    unfolding after_iterations_Suc_end by auto
  show "c' = c" by (rule c)
  show "lb_inv c s" by (rule lb_inv_after[OF prepare_lb_inv[OF p] a])
qed

lemma compute_node_load_Inl_iff:
  "(\<exists>e. compute_node_load t d = Inl e) \<longleftrightarrow> zero_shard_node t d \<or> bad_shard_replica t d"
proof
  assume "\<exists>e. compute_node_load t d = Inl e"
  then obtain e where e: "compute_node_load t d = Inl e" by blast
  show "zero_shard_node t d \<or> bad_shard_replica t d"
  proof (cases "select_nodes d (for_each_node (get_topology t)) Map.empty")
    case (Inl e')
    from select_nodes_Inl[OF this] show ?thesis by (auto simp: zero_shard_node_def)
  next
    case (Inr ns0)
    have dj: "distinct (map fst (for_each_node (get_topology t)))"
      "fst ` set (for_each_node (get_topology t)) \<inter> dom (Map.empty :: node_loads) = {}"
      by (simp_all add: for_each_node_def)
    have m: "map_of (for_each_node (get_topology t)) = find_node (get_topology t)"
      by (auto simp: for_each_node_def find_node_def map_of_clearjunk)
    have ns0: "ns0 h = (case find_node (get_topology t) h of
                    Some nd \<Rightarrow> if selected d nd then Some (fresh_node_load nd) else None
                  | None \<Rightarrow> None)" for h
      using select_nodes_Inr(1)[OF Inr dj, of h] by (simp add: m)
    from e Inr have "fold_err (\<lambda>(g, r). count_replica r) (all_replicas t) ns0 = Inl e"
      by (simp add: compute_node_load_def compute_tablet_load_flat all_replicas_def)
    from count_fold_Inl[OF this] obtain g r n where gr: "(g, r) \<in> set (all_replicas t)"
      and n: "ns0 (host r) = Some n" "shard_count n \<le> shard r" by auto
    from n(1) obtain nd where nd: "find_node (get_topology t) (host r) = Some nd" "selected d nd"
      "n = fresh_node_load nd"
      unfolding ns0 by (auto split: option.splits if_splits)
    from n(2) nd(3) have "get_shard_count nd \<le> shard r" by (simp add: fresh_node_load_def)
    with gr nd(1,2) have "bad_shard_replica t d"
      unfolding bad_shard_replica_def by (intro bexI[of _ "(g, r)"]) auto
    then show ?thesis ..
  qed
next
  assume a: "zero_shard_node t d \<or> bad_shard_replica t d"
  show "\<exists>e. compute_node_load t d = Inl e"
  proof (cases "compute_node_load t d")
    case (Inl e)
    then show ?thesis by blast
  next
    case (Inr ns1)
    note ch = compute_node_load_char[OF Inr]
    from a show ?thesis
    proof
      assume "zero_shard_node t d"
      then obtain h nd where "(h, nd) \<in> set (for_each_node (get_topology t))" "selected d nd"
        "get_shard_count nd = 0" by (auto simp: zero_shard_node_def)
      from select_nodes_zero[OF this, of Map.empty] show ?thesis
        by (auto simp: compute_node_load_def)
    next
      assume "bad_shard_replica t d"
      then obtain g r nd where gr: "(g, r) \<in> set (all_replicas t)"
        and nd: "find_node (get_topology t) (host r) = Some nd" "selected d nd" "get_shard_count nd \<le> shard r"
        by (auto simp: bad_shard_replica_def split: option.splits)
      have "ns1 (host r) = Some (counted_node_load t (host r) nd)"
        unfolding ch(1) by (simp add: nd)
      from ch(3)[OF gr this] nd(3) show ?thesis by simp
    qed
  qed
qed

lemma make_plan_dc_Inl:
  assumes "make_plan_dc t d = Inl e" and "replicas_known t"
  shows "compute_node_load t d = Inl e"
proof (cases "prepare t d")
  case (Inl e')
  with assms(1) have "e' = e" by (simp add: make_plan_dc_def)
  with Inl show ?thesis by (simp add: prepare_Inl)
next
  case (Inr p)
  show ?thesis
  proof (cases p)
    case (Ready c s)
    with Inr assms(1) have l: "loop c s = Inl e" by (simp add: make_plan_dc_def)
    have pr: "prepare t d = Inr (Ready c s)" by (simp add: Inr Ready)
    have "lb_inv c s" by (rule prepare_lb_inv[OF pr])
    moreover have "tm c = t" by (rule prepare_Ready(1)[OF pr])
    ultimately obtain pl where "loop c s = Inr pl" using loop_no_fault[of c s] assms(2) by auto
    with l show ?thesis by simp
  qed (use Inr assms(1) in \<open>auto simp: make_plan_dc_def\<close>)
qed

subsection \<open>The pairs of tablet and source replica of a plan are distinct\<close>

definition cand :: "lb_state \<Rightarrow> tablet_replica \<Rightarrow> global_tablet_id set" where
  "cand s r = set (candidates (shards (node_at (nodes s) (host r)) ! shard r))"

definition plan_ok :: "lb_state \<Rightarrow> bool" where
  "plan_ok s \<longleftrightarrow>
     distinct (map (\<lambda>m. (mtablet m, src m)) (plan s)) \<and>
     (\<forall>m\<in>set (plan s). mtablet m \<notin> cand s (src m))"

lemma cand_skipped:
  assumes "skipped s s' h n" and n: "nodes s h = Some n"
  shows "cand s' r \<subseteq> cand s r"
proof -
  from assms(1) obtain N where N: "nodes s' = (nodes s)(h \<mapsto> N)" "skip_effect n N"
    by (auto simp: skipped_def)
  show ?thesis
  proof (cases "host r = h")
    case False
    then show ?thesis by (simp add: cand_def N(1))
  next
    case True
    from N(2) consider (same) "shards N = shards n"
      | (rem) sh g where "sh < length (shards n)"
        "shards N = (shards n)[sh := (shards n ! sh)\<lparr>candidates := removeAll g (candidates (shards n ! sh))\<rparr>]"
      by (auto simp: skip_effect_def)
    then show ?thesis
    proof cases
      case same
      then show ?thesis using True n by (simp add: cand_def N(1))
    next
      case rem
      then show ?thesis using True n
        by (cases "shard r = sh") (auto simp: cand_def N(1))
    qed
  qed
qed

lemma cand_moved:
  assumes N: "nodes s' = (nodes s)(target c \<mapsto> update (tn\<lparr>tablet_count := tablet_count tn + 1\<rparr>), h \<mapsto> N)"
    and me: "move_effect sh g n N" and n: "nodes s h = Some n" and tn: "nodes s (target c) = Some tn"
    and sh: "sh < length (shards n)"
  shows "cand s' r \<subseteq> cand s r" and "g \<notin> cand s' \<lparr>host = h, shard = sh\<rparr>"
proof -
  from me have sN: "shards N = (shards n)[sh := (shards n ! sh)
                  \<lparr>candidates := removeAll g (candidates (shards n ! sh)),
                   sl_tablet_count := dec64 (sl_tablet_count (shards n ! sh))\<rparr>]"
    by (simp add: move_effect_def)
  show "cand s' r \<subseteq> cand s r"
  proof (cases "host r = h")
    case True
    then show ?thesis using n sh by (cases "shard r = sh") (auto simp: cand_def N sN)
  next
    case False
    then show ?thesis using tn by (cases "host r = target c") (simp_all add: cand_def N)
  qed
  show "g \<notin> cand s' \<lparr>host = h, shard = sh\<rparr>"
    using sh by (simp add: cand_def N sN)
qed

lemma plan_ok_step:
  assumes inv: "lb_inv c s" and ok: "plan_ok s" and g: "nodes_by_load s \<noteq> []"
    and r: "loop_body c s = Next s'"
  shows "plan_ok s'"
proof -
  define h where "h = last (pop_heap (nodes_cmp (nodes s)) (nodes_by_load s))"
  have "h \<in> set (nodes_by_load s)" unfolding h_def using g by (rule last_pop_heap_in_set)
  with inv obtain n where n: "nodes s h = Some n" by (auto simp: lb_inv_def)
  from inv obtain tn where tn: "nodes s (target c) = Some tn" by (auto simp: lb_inv_def)
  from loop_body_char[OF r g n[unfolded h_def] tn, folded h_def]
  have alt: "skipped s s' h n \<or> moved c s s' h n tn" by auto
  then show ?thesis
  proof
    assume sk: "skipped s s' h n"
    then have p: "plan s' = plan s" by (simp add: skipped_def)
    from ok cand_skipped[OF sk n] show ?thesis
      unfolding plan_ok_def p by blast
  next
    assume "moved c s s' h n tn"
    then obtain sh g k N where m: "sh < length (shards n)"
      "g \<in> set (candidates (shards n ! sh))"
      "plan s' = plan s @ [\<lparr>mtablet = g, src = \<lparr>host = h, shard = sh\<rparr>, dst = \<lparr>host = target c, shard = k\<rparr>\<rparr>]"
      "nodes s' = (nodes s)(target c \<mapsto> update (tn\<lparr>tablet_count := tablet_count tn + 1\<rparr>), h \<mapsto> N)"
      "move_effect sh g n N"
      by (auto simp: moved_def)
    note cm = cand_moved[OF m(4,5) n tn m(1)]
    have gin: "g \<in> cand s \<lparr>host = h, shard = sh\<rparr>" using m(2) n by (simp add: cand_def)
    have new: "(g, \<lparr>host = h, shard = sh\<rparr>) \<notin> (\<lambda>m. (mtablet m, src m)) ` set (plan s)"
    proof
      assume "(g, \<lparr>host = h, shard = sh\<rparr>) \<in> (\<lambda>m. (mtablet m, src m)) ` set (plan s)"
      then obtain m' where "m' \<in> set (plan s)" "mtablet m' = g" "src m' = \<lparr>host = h, shard = sh\<rparr>"
        by auto
      with ok gin show False by (auto simp: plan_ok_def)
    qed
    have old: "mtablet m' \<notin> cand s' (src m')" if "m' \<in> set (plan s)" for m'
      using ok that cm(1)[of "src m'"] by (auto simp: plan_ok_def)
    show ?thesis
      unfolding plan_ok_def m(3) using ok new old cm(2) by (auto simp: plan_ok_def)
  qed
qed

lemma plan_ok_after:
  "lb_inv c s \<Longrightarrow> plan_ok s \<Longrightarrow> after_iterations k c s = Some s' \<Longrightarrow> plan_ok s'"
proof (induction k arbitrary: s)
  case 0
  then show ?case by simp
next
  case (Suc k)
  from Suc.prems(3) obtain s1 where g: "nodes_by_load s \<noteq> []" and b: "loop_body c s = Next s1"
    and r: "after_iterations k c s1 = Some s'"
    by (auto split: if_splits outcome.splits)
  from Suc.IH[OF lb_inv_step[OF Suc.prems(1) g b] plan_ok_step[OF Suc.prems(1,2) g b] r] show ?case .
qed

lemma plan_pairs_distinct:
  assumes "make_plan_dc t d = Inr p"
  shows "distinct (map (\<lambda>m. (mtablet m, src m)) p)"
proof (cases "p = []")
  case True
  then show ?thesis by simp
next
  case False
  with make_plan_dc_cases[OF assms] obtain c s0
    where r: "prepare t d = Inr (Ready c s0)" and l: "loop c s0 = Inr p"
    by auto
  from loop_stops[of s0 c] l obtain k s where a: "after_iterations k c s0 = Some s" and p: "p = plan s"
    by auto
  have "plan_ok s0" by (simp add: plan_ok_def prepare_Ready(5)[OF r])
  from plan_ok_after[OF prepare_lb_inv[OF r] this a] show ?thesis
    by (simp add: plan_ok_def p)
qed

subsection \<open>Valid topologies and the loads of their nodes\<close>

text \<open>The average load of a node as a function of the snapshot: the number of replicas that
  the tablet maps place on the host, over the shard count of the node, computed by
  \<^verbatim>\<open>get_avg_load\<close>. It is the load that phases A and B arrive at for a normal node of the
  datacenter when they raise no error (\<open>load_of_node_avg_load\<close>).\<close>

definition node_avg_load :: "token_metadata \<Rightarrow> host_id \<Rightarrow> load_type" where
  "node_avg_load t h =
     (case find_node (get_topology t) h of
        None \<Rightarrow> 0
      | Some nd \<Rightarrow> get_avg_load (fresh_node_load nd) (replicas_on h (all_replicas t)))"

lemma load_of_node_avg_load:
  assumes "compute_node_load t d = Inr ns" and "h \<in> set (node_keys d (get_topology t))"
  shows "load_of ns h = node_avg_load t h"
proof -
  from assms(2) obtain nd where nd: "find_node (get_topology t) h = Some nd" "selected d nd"
    unfolding node_keys_iff by blast
  from compute_node_load_char(1)[OF assms(1), of h] nd
  have "ns h = Some (counted_node_load t h nd)" by simp
  then have "node_at ns h = counted_node_load t h nd" by simp
  then show ?thesis
    by (simp add: load_of_def node_avg_load_def nd(1) get_avg_load_def fresh_node_load_def)
qed

lemma valid_topology_Inr:
  assumes "\<not> zero_shard_node t d" and "\<not> bad_shard_replica t d"
  shows "\<exists>ns. compute_node_load t d = Inr ns"
proof (cases "compute_node_load t d")
  case (Inl e)
  then have "\<exists>e. compute_node_load t d = Inl e" by blast
  with assms show ?thesis unfolding compute_node_load_Inl_iff by blast
next
  case (Inr ns)
  then show ?thesis by blast
qed

lemma balanced_loads_empty_plan:
  assumes "compute_node_load t d = Inr ns"
    and "\<forall>h\<in>set (node_keys d (get_topology t)). \<forall>h'\<in>set (node_keys d (get_topology t)).
           load_of ns h = load_of ns h'"
  shows "make_plan_dc t d = Inr []"
proof -
  let ?keys = "node_keys d (get_topology t)"
  obtain ns2 mx mn mnode where I: "compute_imbalance ?keys (ns, 0, 0, None) = (ns2, mx, mn, mnode)"
    by (metis prod_cases4)
  define L where "L = (if ?keys = [] then 0 else load_of ns (hd ?keys))"
  have all: "\<forall>h\<in>set ?keys. load_of ns h = L"
  proof
    fix h assume h: "h \<in> set ?keys"
    then have ne: "?keys \<noteq> []" by auto
    then have "hd ?keys \<in> set ?keys" by simp
    with assms(2) h have "load_of ns h = load_of ns (hd ?keys)" by blast
    with ne show "load_of ns h = L" by (simp add: L_def)
  qed
  have "?keys = [] \<or> 0 \<le> L" by (simp add: L_def load_of_nonneg)
  with compute_imbalance_balanced[OF I all] have "mx = mn" by simp
  from prepare_char(2)[OF assms(1) I this] show ?thesis by (simp add: make_plan_dc_def)
qed

lemma valid_balanced_empty_plan:
  assumes "\<not> zero_shard_node t d" and "\<not> bad_shard_replica t d"
    and "\<forall>h\<in>set (node_keys d (get_topology t)). \<forall>h'\<in>set (node_keys d (get_topology t)).
           node_avg_load t h = node_avg_load t h'"
  shows "make_plan_dc t d = Inr []"
proof -
  from valid_topology_Inr[OF assms(1,2)] obtain ns where ns: "compute_node_load t d = Inr ns" ..
  have "\<forall>h\<in>set (node_keys d (get_topology t)). \<forall>h'\<in>set (node_keys d (get_topology t)).
           load_of ns h = load_of ns h'"
  proof (intro ballI)
    fix h h' assume h: "h \<in> set (node_keys d (get_topology t))" "h' \<in> set (node_keys d (get_topology t))"
    with assms(3) have "node_avg_load t h = node_avg_load t h'" by blast
    then show "load_of ns h = load_of ns h'"
      by (simp only: load_of_node_avg_load[OF ns h(1)] load_of_node_avg_load[OF ns h(2)])
  qed
  with ns show ?thesis by (rule balanced_loads_empty_plan)
qed

lemma no_nodes_valid:
  assumes "node_keys d (get_topology t) = []"
  shows "\<not> zero_shard_node t d" and "\<not> bad_shard_replica t d"
proof -
  have none: "\<not> (find_node (get_topology t) h = Some nd \<and> selected d nd)" for h nd
    using node_keys_iff[of h d "get_topology t"] assms by auto
  show "\<not> zero_shard_node t d"
  proof
    assume "zero_shard_node t d"
    then obtain h nd where m: "(h, nd) \<in> set (for_each_node (get_topology t))" and s: "selected d nd"
      by (auto simp: zero_shard_node_def)
    from m have "find_node (get_topology t) h = Some nd"
      unfolding for_each_node_def find_node_def by (rule clearjunk_member)
    with s none show False by blast
  qed
  show "\<not> bad_shard_replica t d"
    using none by (auto simp: bad_shard_replica_def split: option.splits)
qed

lemma no_tables_valid:
  assumes "tablets t = []"
  shows "all_replicas t = []" and "\<not> bad_shard_replica t d" and "node_avg_load t h = 0"
proof -
  show r: "all_replicas t = []"
    by (simp add: all_replicas_def all_tables_def tagged_replicas_def assms)
  show "\<not> bad_shard_replica t d" by (simp add: bad_shard_replica_def r)
  show "node_avg_load t h = 0"
    by (simp add: node_avg_load_def r get_avg_load_def split: option.splits)
qed

subsection \<open>A snapshot to run the planner on\<close>

text \<open>Two nodes of two shards each in different racks; four tablets with one replica each, all
  on node 1 (scenario S1 of the specification).\<close>

definition example_node :: "string \<Rightarrow> nat \<Rightarrow> node" where
  "example_node r k = \<lparr>get_state = normal, dc_rack = \<lparr>dc = ''dc1'', rack = r\<rparr>, get_shard_count = k\<rparr>"

definition example_tablet :: "(host_id \<times> shard_id) list \<Rightarrow> tablet_info" where
  "example_tablet rs = \<lparr>replicas = map (\<lambda>(h, s). \<lparr>host = h, shard = s\<rparr>) rs\<rparr>"

definition example_move :: token_metadata where
  "example_move =
     \<lparr>get_topology = [(1, example_node ''r1'' 2), (2, example_node ''r2'' 2)],
      tablets = [(0, \<lparr>tablet_list = [example_tablet [(1, 0)], example_tablet [(1, 0)],
                                     example_tablet [(1, 1)], example_tablet [(1, 1)]],
                     transitions = []\<rparr>)]\<rparr>"

definition example_move_plan :: migration_plan where
  "example_move_plan =
     [\<lparr>mtablet = \<lparr>table = 0, tablet = 3\<rparr>, src = \<lparr>host = 1, shard = 1\<rparr>, dst = \<lparr>host = 2, shard = 0\<rparr>\<rparr>,
      \<lparr>mtablet = \<lparr>table = 0, tablet = 1\<rparr>, src = \<lparr>host = 1, shard = 0\<rparr>, dst = \<lparr>host = 2, shard = 1\<rparr>\<rparr>]"

lemma example_move_result: "make_plan_dc example_move ''dc1'' = Inr example_move_plan"
  by code_simp

definition example_balanced :: token_metadata where
  "example_balanced =
     \<lparr>get_topology = [(1, example_node ''r1'' 1), (2, example_node ''r2'' 1)],
      tablets = [(0, \<lparr>tablet_list = [example_tablet [(1, 0)], example_tablet [(2, 0)]],
                     transitions = []\<rparr>)]\<rparr>"

definition example_pending :: token_metadata where
  "example_pending =
     \<lparr>get_topology = [(1, example_node ''r1'' 2), (2, example_node ''r2'' 2)],
      tablets = [(0, \<lparr>tablet_list = [example_tablet [(1, 0)], example_tablet [(1, 0)],
                                     example_tablet [(1, 1)], example_tablet [(1, 1)]],
                     transitions = [2]\<rparr>)]\<rparr>"

text \<open>Node 2 is a normal node of the datacenter with no shard.\<close>

definition example_zero_shards :: token_metadata where
  "example_zero_shards =
     \<lparr>get_topology = [(1, example_node ''r1'' 2), (2, example_node ''r2'' 0)],
      tablets = [(0, \<lparr>tablet_list = [example_tablet [(1, 0)]], transitions = []\<rparr>)]\<rparr>"

text \<open>Both tablets have a replica on host 9, which the topology does not know; every shard
  index is within the shard count of its node, and every node has a shard.\<close>

definition example_unknown_host :: token_metadata where
  "example_unknown_host =
     \<lparr>get_topology = [(1, example_node ''r1'' 1), (2, example_node ''r2'' 2)],
      tablets = [(0, \<lparr>tablet_list = [example_tablet [(1, 0), (9, 0)], example_tablet [(1, 0), (9, 0)]],
                     transitions = []\<rparr>)]\<rparr>"

text \<open>Nodes 1 and 2 have one shard each and hold a replica of each of the three tablets; node 3
  has eight shards and holds nothing.\<close>

definition example_twice :: token_metadata where
  "example_twice =
     \<lparr>get_topology = [(1, example_node ''r1'' 1), (2, example_node ''r1'' 1), (3, example_node ''r1'' 8)],
      tablets = [(0, \<lparr>tablet_list = [example_tablet [(1, 0), (2, 0)], example_tablet [(1, 0), (2, 0)],
                                     example_tablet [(1, 0), (2, 0)]],
                     transitions = []\<rparr>)]\<rparr>"

text \<open>Two nodes of one shard each with one replica each, so of equal load; the replica on node 2
  names shard 5.\<close>

definition example_balanced_bad_shard :: token_metadata where
  "example_balanced_bad_shard =
     \<lparr>get_topology = [(1, example_node ''r1'' 1), (2, example_node ''r2'' 1)],
      tablets = [(0, \<lparr>tablet_list = [example_tablet [(1, 0), (2, 5)]], transitions = []\<rparr>)]\<rparr>"

text \<open>No table at all; node 2 is a normal node of the datacenter with no shard.\<close>

definition example_no_tables :: token_metadata where
  "example_no_tables =
     \<lparr>get_topology = [(1, example_node ''r1'' 2), (2, example_node ''r2'' 0)], tablets = []\<rparr>"

text \<open>The snapshot \<^verbatim>\<open>example_pending\<close> with the first replica moved to shard 7 of node 1, which
  has two shards.\<close>

definition example_pending_bad_shard :: token_metadata where
  "example_pending_bad_shard =
     \<lparr>get_topology = [(1, example_node ''r1'' 2), (2, example_node ''r2'' 2)],
      tablets = [(0, \<lparr>tablet_list = [example_tablet [(1, 7)], example_tablet [(1, 0)],
                                     example_tablet [(1, 1)], example_tablet [(1, 1)]],
                     transitions = [2]\<rparr>)]\<rparr>"

subsection \<open>Properties of the returned plan\<close>

text \<open>Claim C1, replica non-collision: every migration of a plan that the per-DC planner returns
  names a tablet of the snapshot, and the host of its destination is not among the hosts of
  that tablet's replicas in the snapshot.\<close>

theorem replica_non_collision:
  assumes "make_plan_dc t d = Inr p" and "m \<in> set p"
  shows "\<exists>rs. tablet_replicas t (mtablet m) = Some rs \<and> host (dst m) \<notin> host ` set rs"
proof -
  from make_plan_dc_cases[OF assms(1)] assms(2) obtain c s
    where r: "prepare t d = Inr (Ready c s)" and l: "loop c s = Inr p"
    by auto
  have step: "\<exists>rs. tablet_replicas t (mtablet m) = Some rs \<and> host (dst m) \<notin> host ` set rs"
    if "emits c s' m" for s' m
    using that check_constraints_True[of c "host (src m)" "mtablet m"]
    by (auto simp: emits_def Let_def prepare_Ready(1)[OF r])
  have "\<forall>m\<in>set p. \<exists>rs. tablet_replicas t (mtablet m) = Some rs \<and> host (dst m) \<notin> host ` set rs"
    by (rule loop_plan_invariant[OF _ _ l]) (use step in \<open>auto simp: prepare_Ready(5)[OF r]\<close>)
  with assms(2) show ?thesis by blast
qed

theorem replica_non_collision_witness:
  "make_plan_dc example_move ''dc1'' = Inr example_move_plan \<and>
   hd example_move_plan \<in> set example_move_plan \<and>
   tablet_replicas example_move (mtablet (hd example_move_plan)) = Some [\<lparr>host = 1, shard = 1\<rparr>] \<and>
   host (dst (hd example_move_plan)) \<notin> host ` set [\<lparr>host = 1, shard = 1\<rparr>]"
proof -
  have m: "hd example_move_plan \<in> set example_move_plan" by (simp add: example_move_plan_def)
  from replica_non_collision[OF example_move_result m]
  have "\<exists>rs. tablet_replicas example_move (mtablet (hd example_move_plan)) = Some rs \<and>
          host (dst (hd example_move_plan)) \<notin> host ` set rs" .
  moreover have "tablet_replicas example_move (mtablet (hd example_move_plan)) = Some [\<lparr>host = 1, shard = 1\<rparr>]"
    by code_simp
  ultimately show ?thesis using example_move_result m by auto
qed

text \<open>Claim C2, no tablet moved twice per plan. The pairs of tablet and source replica of a
  returned plan are pairwise distinct (\<^verbatim>\<open>plan_pairs_distinct\<close> above), but a tablet can appear
  in two migrations of one plan: on \<^verbatim>\<open>example_twice\<close> the planner returns four migrations for
  three tablets, and they move tablet 2 from node 2 and from node 1, and tablet 1 from node 2
  and from node 1, all to node 3. Line 349 erases the chosen tablet from the candidate set of
  the source shard only, the other replicas of the tablet stay candidates on their shards, and
  the scan of lines 356-368 for a replica on the target reads the snapshot, which an emitted
  migration does not change. Each of nodes 1 and 2 gives two of its three tablets to node 3
  before the guard of line 317 stops the loop, so a tablet is moved twice whatever the
  iteration order of the candidate sets.\<close>

theorem tablet_moved_twice:
  "map_sum id (map (\<lambda>m. (tablet (mtablet m), host (src m), host (dst m))))
     (make_plan_dc example_twice ''dc1'')
   = Inr [(2, 2, 3), (2, 1, 3), (1, 2, 3), (1, 1, 3)] \<and>
   \<not> distinct (map mtablet (projr (make_plan_dc example_twice ''dc1'')))"
  by code_simp

text \<open>Claim C3, load-monotone: when an iteration of the selection loop emits a migration \<open>m\<close>
  (the plan after the iteration is the plan before it followed by \<open>m\<close>), with \<open>n\<close> the load of the
  source node and \<open>tn\<close> the load of the target node before the iteration: the source is not the
  target, it has a tablet and both nodes have shards, so that the subtraction of line 317 does
  not wrap and the divisions are defined; the load of the source after the move,
  \<open>(tablet_count n - 1) / shard_count n\<close>, is at least that of the target after the move,
  \<open>(tablet_count tn + 1) / shard_count tn\<close>; and these two values are the \<^verbatim>\<open>avg_load\<close> that the
  iteration stores in the two nodes.\<close>

theorem load_monotone:
  assumes "run_iterations k t d = Some (c, s)" and "run_iterations (Suc k) t d = Some (c', s')"
    and "plan s' = plan s @ [m]"
  shows "\<exists>n tn n' tn'.
           nodes s (host (src m)) = Some n \<and> nodes s (target c) = Some tn \<and>
           nodes s' (host (src m)) = Some n' \<and> nodes s' (target c) = Some tn' \<and>
           host (dst m) = target c \<and> host (src m) \<noteq> target c \<and>
           0 < tablet_count n \<and> 0 < shard_count n \<and> 0 < shard_count tn \<and>
           get_avg_load tn (tablet_count tn + 1) \<le> get_avg_load n (tablet_count n - 1) \<and>
           avg_load n' = get_avg_load n (tablet_count n - 1) \<and>
           avg_load tn' = get_avg_load tn (tablet_count tn + 1) \<and>
           avg_load tn' \<le> avg_load n'"
proof -
  note st = run_iterations_step[OF assms(1,2)]
  define h where "h = last (pop_heap (nodes_cmp (nodes s)) (nodes_by_load s))"
  have "h \<in> set (nodes_by_load s)" unfolding h_def using st(3) by (rule last_pop_heap_in_set)
  with st(5) obtain n where n: "nodes s h = Some n" by (auto simp: lb_inv_def)
  from st(5) obtain tn where tn: "nodes s (target c) = Some tn" by (auto simp: lb_inv_def)
  from st(5) n have okn: "node_ok c (length (plan s)) h n" by (simp add: lb_inv_def)
  from st(5) tn have okt: "node_ok c (length (plan s)) (target c) tn" by (simp add: lb_inv_def)
  from loop_body_char[OF st(4,3) n[unfolded h_def] tn, folded h_def]
  have alt: "skipped s s' h n \<or>
          (avg_load tn < avg_load n \<and>
           get_avg_load tn (tablet_count tn + 1) \<le> get_avg_load n (dec64 (tablet_count n)) \<and>
           moved c s s' h n tn)"
    by simp
  have "\<not> skipped s s' h n" using assms(3) by (auto simp: skipped_def)
  with alt have lt: "avg_load tn < avg_load n"
    and le: "get_avg_load tn (tablet_count tn + 1) \<le> get_avg_load n (dec64 (tablet_count n))"
    and mv: "moved c s s' h n tn" by auto
  from mv obtain sh g k N where m: "sh < length (shards n)"
      "g \<in> set (candidates (shards n ! sh))"
      "plan s' = plan s @ [\<lparr>mtablet = g, src = \<lparr>host = h, shard = sh\<rparr>, dst = \<lparr>host = target c, shard = k\<rparr>\<rparr>]"
      "nodes s' = (nodes s)(target c \<mapsto> update (tn\<lparr>tablet_count := tablet_count tn + 1\<rparr>), h \<mapsto> N)"
      "move_effect sh g n N"
    by (auto simp: moved_def)
  from m(3) assms(3) have me: "m = \<lparr>mtablet = g, src = \<lparr>host = h, shard = sh\<rparr>, dst = \<lparr>host = target c, shard = k\<rparr>\<rparr>"
    by simp
  from lt n tn have ne: "h \<noteq> target c" by auto
  note src = node_ok_move_src[OF okn ne m(1,2,5)]
  have d: "dec64 (tablet_count n) = tablet_count n - 1" using src(2) by (simp add: dec64_pos)
  from m(5) have N: "shard_count N = shard_count n" "avg_load N = get_avg_load N (tablet_count N)"
    by (simp_all add: move_effect_def)
  have aN: "avg_load N = get_avg_load n (tablet_count n - 1)"
    unfolding N(2) src(3) by (rule get_avg_load_cong[OF N(1)])
  have 1: "nodes s' (host (src m)) = Some N" by (simp add: me m(4))
  have 2: "nodes s' (target c) = Some (update (tn\<lparr>tablet_count := tablet_count tn + 1\<rparr>))"
    using ne by (simp add: m(4))
  have aT: "avg_load (update (tn\<lparr>tablet_count := tablet_count tn + 1\<rparr>))
      = get_avg_load tn (tablet_count tn + 1)"
    by (simp add: get_avg_load_def)
  from okn okt have pos: "0 < shard_count n" "0 < shard_count tn" by (simp_all add: node_ok_def)
  have le': "get_avg_load tn (tablet_count tn + 1) \<le> get_avg_load n (tablet_count n - 1)"
    using le unfolding d .
  show ?thesis
    apply (rule exI[of _ n], rule exI[of _ tn], rule exI[of _ N])
    apply (rule exI[of _ "update (tn\<lparr>tablet_count := tablet_count tn + 1\<rparr>)"])
    using n tn 1 2 ne src(2) pos le' aN aT by (simp add: me)
qed

lemma example_move_first_step:
  "(case (run_iterations 0 example_move ''dc1'', run_iterations 1 example_move ''dc1'') of
      (Some (c, s), Some (c', s')) \<Rightarrow> plan s' = plan s @ [hd example_move_plan]
    | _ \<Rightarrow> False)"
  by code_simp

theorem load_monotone_witness:
  "\<exists>c s c' s'. run_iterations 0 example_move ''dc1'' = Some (c, s) \<and>
      run_iterations 1 example_move ''dc1'' = Some (c', s') \<and>
      plan s' = plan s @ [hd example_move_plan] \<and>
      (\<exists>n tn n' tn'.
           nodes s (host (src (hd example_move_plan))) = Some n \<and> nodes s (target c) = Some tn \<and>
           nodes s' (host (src (hd example_move_plan))) = Some n' \<and> nodes s' (target c) = Some tn' \<and>
           host (dst (hd example_move_plan)) = target c \<and> host (src (hd example_move_plan)) \<noteq> target c \<and>
           0 < tablet_count n \<and> 0 < shard_count n \<and> 0 < shard_count tn \<and>
           get_avg_load tn (tablet_count tn + 1) \<le> get_avg_load n (tablet_count n - 1) \<and>
           avg_load n' = get_avg_load n (tablet_count n - 1) \<and>
           avg_load tn' = get_avg_load tn (tablet_count tn + 1) \<and>
           avg_load tn' \<le> avg_load n')"
proof -
  from example_move_first_step obtain c s c' s' where
    a: "run_iterations 0 example_move ''dc1'' = Some (c, s)"
    and b: "run_iterations 1 example_move ''dc1'' = Some (c', s')"
    and p: "plan s' = plan s @ [hd example_move_plan]"
    by (auto split: option.splits prod.splits)
  from load_monotone[OF a b[unfolded One_nat_def] p] a b p show ?thesis by blast
qed

text \<open>Claim C4, rack diversity non-regression: for a migration of a returned plan whose
  source node and target node lie in different racks, the rack of the target holds, among
  the replicas of the tablet that are in the datacenter, at least one replica less than
  some rack does: its count plus one is at most the maximum of the histogram.\<close>

theorem rack_diversity_non_regression:
  assumes "make_plan_dc t d = Inr p" and "m \<in> set p"
  shows "\<exists>rs sn tn. tablet_replicas t (mtablet m) = Some rs \<and>
           find_node (get_topology t) (host (src m)) = Some sn \<and>
           find_node (get_topology t) (host (dst m)) = Some tn \<and>
           (rack (dc_rack sn) \<noteq> rack (dc_rack tn) \<longrightarrow>
              (\<exists>r. rack_count (get_topology t) d rs (rack (dc_rack tn)) + 1
                     \<le> rack_count (get_topology t) d rs r))"
proof -
  let ?P = "\<lambda>m. \<exists>rs sn tn. tablet_replicas t (mtablet m) = Some rs \<and>
           find_node (get_topology t) (host (src m)) = Some sn \<and>
           find_node (get_topology t) (host (dst m)) = Some tn \<and>
           (rack (dc_rack sn) \<noteq> rack (dc_rack tn) \<longrightarrow>
              (\<exists>r. rack_count (get_topology t) d rs (rack (dc_rack tn)) + 1
                     \<le> rack_count (get_topology t) d rs r))"
  from make_plan_dc_cases[OF assms(1)] assms(2) obtain c s
    where r: "prepare t d = Inr (Ready c s)" and l: "loop c s = Inr p"
    by auto
  note ctx = prepare_Ready[OF r]
  have step: "?P m" if e: "emits c s' m" for s' m
  proof -
    from e have cc: "check_constraints c (host (src m)) (mtablet m) = Inr True"
      and dst: "host (dst m) = target c"
      by (auto simp: emits_def Let_def)
    from check_constraints_True[OF cc] obtain rs sn where
      "tablet_replicas t (mtablet m) = Some rs"
      "find_node (get_topology t) (host (src m)) = Some sn"
      "rack (dc_rack (target_node c)) \<noteq> rack (dc_rack sn) \<longrightarrow>
          (\<exists>r. rack_count (get_topology t) d rs (rack (dc_rack (target_node c))) + 1
                 \<le> rack_count (get_topology t) d rs r)"
      unfolding ctx by blast
    then show ?thesis using ctx(3) dst by auto
  qed
  have "\<forall>m\<in>set p. ?P m"
  proof (rule loop_plan_invariant[OF _ _ l])
    show "\<And>s m. emits c s m \<Longrightarrow> ?P m" by (rule step)
    show "\<forall>m\<in>set (plan s). ?P m" by (simp add: ctx(5))
  qed
  with assms(2) show ?thesis by blast
qed

lemma example_move_hd:
  "hd example_move_plan = \<lparr>mtablet = \<lparr>table = 0, tablet = 3\<rparr>, src = \<lparr>host = 1, shard = 1\<rparr>, dst = \<lparr>host = 2, shard = 0\<rparr>\<rparr>"
  by (simp add: example_move_plan_def)

lemma example_move_lookups:
  "tablet_replicas example_move \<lparr>table = 0, tablet = 3\<rparr> = Some [\<lparr>host = 1, shard = 1\<rparr>]"
  "find_node (get_topology example_move) 1 = Some (example_node ''r1'' 2)"
  "find_node (get_topology example_move) 2 = Some (example_node ''r2'' 2)"
  by code_simp+

theorem rack_diversity_non_regression_witness:
  "make_plan_dc example_move ''dc1'' = Inr example_move_plan \<and>
   hd example_move_plan \<in> set example_move_plan \<and>
   rack (dc_rack (example_node ''r1'' 2)) \<noteq> rack (dc_rack (example_node ''r2'' 2)) \<and>
   (\<exists>r. rack_count (get_topology example_move) ''dc1'' [\<lparr>host = 1, shard = 1\<rparr>] ''r2'' + 1
         \<le> rack_count (get_topology example_move) ''dc1'' [\<lparr>host = 1, shard = 1\<rparr>] r)"
proof -
  have m: "hd example_move_plan \<in> set example_move_plan" by (simp add: example_move_plan_def)
  have ne: "rack (dc_rack (example_node ''r1'' 2)) \<noteq> rack (dc_rack (example_node ''r2'' 2))"
    by (simp add: example_node_def)
  from rack_diversity_non_regression[OF example_move_result m] obtain rs sn tn where
    a: "tablet_replicas example_move (mtablet (hd example_move_plan)) = Some rs"
    and b: "find_node (get_topology example_move) (host (src (hd example_move_plan))) = Some sn"
    and c: "find_node (get_topology example_move) (host (dst (hd example_move_plan))) = Some tn"
    and d: "rack (dc_rack sn) \<noteq> rack (dc_rack tn) \<longrightarrow>
              (\<exists>r. rack_count (get_topology example_move) ''dc1'' rs (rack (dc_rack tn)) + 1
                     \<le> rack_count (get_topology example_move) ''dc1'' rs r)"
    by blast
  have rs: "rs = [\<lparr>host = 1, shard = 1\<rparr>]"
    using a example_move_lookups(1) by (simp add: example_move_hd)
  have sn: "sn = example_node ''r1'' 2"
    using b example_move_lookups(2) by (simp add: example_move_hd)
  have tn: "tn = example_node ''r2'' 2"
    using c example_move_lookups(3) by (simp add: example_move_hd)
  have r2: "rack (dc_rack (example_node ''r2'' 2)) = ''r2''" by (simp add: example_node_def)
  from d ne
  have "\<exists>r. rack_count (get_topology example_move) ''dc1'' [\<lparr>host = 1, shard = 1\<rparr>] ''r2'' + 1
         \<le> rack_count (get_topology example_move) ''dc1'' [\<lparr>host = 1, shard = 1\<rparr>] r"
    unfolding rs sn tn r2 by blast
  with example_move_result m ne show ?thesis by blast
qed

text \<open>Claim C5, node load consistency, in the form that holds: in every state that the selection
  loop reaches (before the first iteration, that is after the shard loads have been built, and
  after each iteration), the \<^verbatim>\<open>tablet_count\<close> of a node other than the target is the sum of the
  tablet counts of its shards, and the \<^verbatim>\<open>tablet_count\<close> of the target is that sum plus the
  number of migrations emitted so far. Line 391 increments \<^verbatim>\<open>target_info.tablet_count\<close> and no
  line touches \<^verbatim>\<open>target_info.shards\<close>: the load of the target's shards is kept in
  \<^verbatim>\<open>target_load\<close>. So the equality claimed for the target after each emitted migration fails
  from the first migration on (shown below on \<^verbatim>\<open>example_move\<close>).\<close>

theorem node_load_consistency:
  assumes "run_iterations k t d = Some (c, s)" and "nodes s h = Some n"
  shows "tablet_count n = sum_list (map sl_tablet_count (shards n))
           + (if h = target c then length (plan s) else 0)"
proof -
  from assms(1) obtain s0 where p: "prepare t d = Inr (Ready c s0)" and a: "after_iterations k c s0 = Some s"
    unfolding run_iterations_Some by blast
  have "lb_inv c s" by (rule lb_inv_after[OF prepare_lb_inv[OF p] a])
  with assms(2) have "node_ok c (length (plan s)) h n" by (simp add: lb_inv_def)
  then show ?thesis by (simp add: node_ok_def shard_sum_def)
qed

lemma example_move_after_1:
  "(case run_iterations 1 example_move ''dc1'' of
      None \<Rightarrow> False
    | Some (c, s) \<Rightarrow> target c = 2 \<and> length (plan s) = 1 \<and> \<not> Option.is_none (nodes s 2))"
  by code_simp

theorem node_load_consistency_witness:
  "\<exists>c s n. run_iterations 1 example_move ''dc1'' = Some (c, s) \<and> nodes s 2 = Some n \<and>
      target c = 2 \<and> length (plan s) = 1 \<and>
      tablet_count n = sum_list (map sl_tablet_count (shards n)) + 1"
proof -
  from example_move_after_1 obtain c s n where r: "run_iterations 1 example_move ''dc1'' = Some (c, s)"
    and f: "target c = 2" "length (plan s) = 1" "nodes s 2 = Some n"
    by (auto split: option.splits simp: Option.is_none_def)
  from node_load_consistency[OF r f(3)] f show ?thesis
    using r by auto
qed

text \<open>After the first iteration on \<^verbatim>\<open>example_move\<close> the target, node 2, has \<^verbatim>\<open>tablet_count\<close> 1
  while the tablet counts of its shards sum to 0.\<close>

theorem node_load_consistency_counterexample:
  "map_option (\<lambda>(c, s). (target c, tablet_count (node_at (nodes s) 2),
                          sum_list (map sl_tablet_count (shards (node_at (nodes s) 2)))))
     (run_iterations 1 example_move ''dc1'') = Some (2, 1, 0)"
  by code_simp

text \<open>Claim C6, bounded plan size: a returned plan is empty, or the planner reached the loop
  with a target, which is a normal node of the datacenter whose average load is the least
  among those nodes; every migration goes to that target, the batch size is the shard count
  of the target node, and the plan has at most that many migrations.\<close>

theorem bounded_plan_size:
  assumes "make_plan_dc t d = Inr p"
  shows "p = [] \<or>
     (\<exists>c s ns. prepare t d = Inr (Ready c s) \<and> compute_node_load t d = Inr ns \<and>
        target c \<in> set (node_keys d (get_topology t)) \<and>
        (\<forall>h\<in>set (node_keys d (get_topology t)). load_of ns (target c) \<le> load_of ns h) \<and>
        find_node (get_topology t) (target c) = Some (target_node c) \<and>
        batch_size c = get_shard_count (target_node c) \<and>
        (\<forall>m\<in>set p. host (dst m) = target c) \<and>
        length p \<le> get_shard_count (target_node c))"
proof (cases "p = []")
  case True
  then show ?thesis by simp
next
  case False
  with make_plan_dc_cases[OF assms] obtain c s
    where r: "prepare t d = Inr (Ready c s)" and l: "loop c s = Inr p"
    by auto
  note ctx = prepare_Ready[OF r]
  from prepare_Ready_char[OF r] obtain ns where ns: "compute_node_load t d = Inr ns"
    "target c \<in> set (node_keys d (get_topology t))"
    "\<forall>h\<in>set (node_keys d (get_topology t)). load_of ns (target c) \<le> load_of ns h"
    by auto
  have "length p \<le> batch_size c"
    by (rule loop_length[OF _ l]) (simp add: ctx(5))
  then have len: "length p \<le> get_shard_count (target_node c)" by (simp add: ctx(4))
  have dst: "\<forall>m\<in>set p. host (dst m) = target c"
    by (rule loop_plan_invariant[OF _ _ l]) (auto simp: emits_def Let_def ctx(5))
  from r ns ctx(3,4) dst len show ?thesis by blast
qed

theorem bounded_plan_size_witness:
  "make_plan_dc example_move ''dc1'' = Inr example_move_plan \<and> example_move_plan \<noteq> [] \<and>
   (\<exists>c s ns. prepare example_move ''dc1'' = Inr (Ready c s) \<and>
        compute_node_load example_move ''dc1'' = Inr ns \<and>
        target c \<in> set (node_keys ''dc1'' (get_topology example_move)) \<and>
        (\<forall>h\<in>set (node_keys ''dc1'' (get_topology example_move)). load_of ns (target c) \<le> load_of ns h) \<and>
        find_node (get_topology example_move) (target c) = Some (target_node c) \<and>
        batch_size c = get_shard_count (target_node c) \<and>
        (\<forall>m\<in>set example_move_plan. host (dst m) = target c) \<and>
        length example_move_plan \<le> get_shard_count (target_node c))"
proof -
  have ne: "example_move_plan \<noteq> []" by (simp add: example_move_plan_def)
  from bounded_plan_size[OF example_move_result] ne example_move_result
  show ?thesis by blast
qed

text \<open>Claim C7, balanced input, in the form that holds: on a valid topology (every normal node
  of the datacenter has a shard, and every replica on such a node names a shard below the
  shard count of the node), when all normal nodes of the datacenter have the same average load
  (replicas on the node over its shard count), the planner returns the empty plan. The
  degenerate cases follow: a datacenter with no normal node, and a snapshot with no table in
  which no normal node of the datacenter has zero shards. Without validity the claim fails,
  since phases A and B run before the comparison of line 196 and raise an error (shown below
  on \<^verbatim>\<open>example_balanced_bad_shard\<close> and \<^verbatim>\<open>example_no_tables\<close>).\<close>

theorem balanced_input_empty_plan:
  "(\<not> zero_shard_node t d \<and> \<not> bad_shard_replica t d \<and>
    (\<forall>h\<in>set (node_keys d (get_topology t)). \<forall>h'\<in>set (node_keys d (get_topology t)).
       node_avg_load t h = node_avg_load t h')
    \<longrightarrow> make_plan_dc t d = Inr []) \<and>
   (node_keys d (get_topology t) = [] \<longrightarrow> make_plan_dc t d = Inr []) \<and>
   (tablets t = [] \<and> \<not> zero_shard_node t d \<longrightarrow> make_plan_dc t d = Inr [])"
proof (intro conjI impI)
  assume "\<not> zero_shard_node t d \<and> \<not> bad_shard_replica t d \<and>
    (\<forall>h\<in>set (node_keys d (get_topology t)). \<forall>h'\<in>set (node_keys d (get_topology t)).
       node_avg_load t h = node_avg_load t h')"
  then have v: "\<not> zero_shard_node t d" "\<not> bad_shard_replica t d"
    and b: "\<forall>h\<in>set (node_keys d (get_topology t)). \<forall>h'\<in>set (node_keys d (get_topology t)).
       node_avg_load t h = node_avg_load t h'"
    by blast+
  show "make_plan_dc t d = Inr []" by (rule valid_balanced_empty_plan[OF v b])
next
  assume e: "node_keys d (get_topology t) = []"
  show "make_plan_dc t d = Inr []"
  proof (rule valid_balanced_empty_plan[OF no_nodes_valid[OF e]])
    show "\<forall>h\<in>set (node_keys d (get_topology t)). \<forall>h'\<in>set (node_keys d (get_topology t)).
       node_avg_load t h = node_avg_load t h'"
      unfolding e by simp
  qed
next
  assume "tablets t = [] \<and> \<not> zero_shard_node t d"
  then have e: "tablets t = []" and z: "\<not> zero_shard_node t d" by simp_all
  show "make_plan_dc t d = Inr []"
  proof (rule valid_balanced_empty_plan[OF z no_tables_valid(2)[OF e]])
    show "\<forall>h\<in>set (node_keys d (get_topology t)). \<forall>h'\<in>set (node_keys d (get_topology t)).
       node_avg_load t h = node_avg_load t h'"
      unfolding no_tables_valid(3)[OF e] by simp
  qed
qed

lemma example_balanced_loads:
  "node_avg_load example_balanced 1 = 1" "node_avg_load example_balanced 2 = 1"
proof -
  have f: "find_node (get_topology example_balanced) 1 = Some (example_node ''r1'' 1)"
    "find_node (get_topology example_balanced) 2 = Some (example_node ''r2'' 1)"
    by code_simp+
  have r: "replicas_on 1 (all_replicas example_balanced) = 1"
    "replicas_on 2 (all_replicas example_balanced) = 1"
    by code_simp+
  show "node_avg_load example_balanced 1 = 1"
    unfolding node_avg_load_def f(1) r(1)
    by (simp add: get_avg_load_def fresh_node_load_def example_node_def)
  show "node_avg_load example_balanced 2 = 1"
    unfolding node_avg_load_def f(2) r(2)
    by (simp add: get_avg_load_def fresh_node_load_def example_node_def)
qed

theorem balanced_input_empty_plan_witness:
  "\<not> zero_shard_node example_balanced ''dc1'' \<and> \<not> bad_shard_replica example_balanced ''dc1'' \<and>
   node_keys ''dc1'' (get_topology example_balanced) = [1, 2] \<and>
   node_avg_load example_balanced 1 = 1 \<and> node_avg_load example_balanced 2 = 1 \<and>
   make_plan_dc example_balanced ''dc1'' = Inr []"
proof -
  have v: "\<not> zero_shard_node example_balanced ''dc1''" "\<not> bad_shard_replica example_balanced ''dc1''"
    by code_simp+
  have k: "node_keys ''dc1'' (get_topology example_balanced) = [1, 2]" by code_simp
  note l = example_balanced_loads
  have b: "\<forall>h\<in>set (node_keys ''dc1'' (get_topology example_balanced)).
           \<forall>h'\<in>set (node_keys ''dc1'' (get_topology example_balanced)).
             node_avg_load example_balanced h = node_avg_load example_balanced h'"
    unfolding k using l by simp
  from balanced_input_empty_plan[of example_balanced "''dc1''"] v b
  have "make_plan_dc example_balanced ''dc1'' = Inr []" by blast
  with v k l show ?thesis by blast
qed

text \<open>On \<^verbatim>\<open>example_balanced_bad_shard\<close> both nodes have load 1 and line 173 raises for the
  replica on shard 5; on \<^verbatim>\<open>example_no_tables\<close> there is no table and line 158 raises for the
  node with no shard.\<close>

theorem balanced_input_empty_plan_counterexample:
  "node_keys ''dc1'' (get_topology example_balanced_bad_shard) = [1, 2] \<and>
   node_avg_load example_balanced_bad_shard 1 = 1 \<and>
   node_avg_load example_balanced_bad_shard 2 = 1 \<and>
   make_plan_dc example_balanced_bad_shard ''dc1'' = Inl Internal_Error \<and>
   tablets example_no_tables = [] \<and>
   make_plan_dc example_no_tables ''dc1'' = Inl Runtime_Error"
proof -
  have k: "node_keys ''dc1'' (get_topology example_balanced_bad_shard) = [1, 2]" by code_simp
  have f: "find_node (get_topology example_balanced_bad_shard) 1 = Some (example_node ''r1'' 1)"
    "find_node (get_topology example_balanced_bad_shard) 2 = Some (example_node ''r2'' 1)"
    by code_simp+
  have r: "replicas_on 1 (all_replicas example_balanced_bad_shard) = 1"
    "replicas_on 2 (all_replicas example_balanced_bad_shard) = 1"
    by code_simp+
  have l1: "node_avg_load example_balanced_bad_shard 1 = 1"
    unfolding node_avg_load_def f(1) r(1)
    by (simp add: get_avg_load_def fresh_node_load_def example_node_def)
  have l2: "node_avg_load example_balanced_bad_shard 2 = 1"
    unfolding node_avg_load_def f(2) r(2)
    by (simp add: get_avg_load_def fresh_node_load_def example_node_def)
  have m: "make_plan_dc example_balanced_bad_shard ''dc1'' = Inl Internal_Error" by code_simp
  have e: "tablets example_no_tables = []" by (simp add: example_no_tables_def)
  have n: "make_plan_dc example_no_tables ''dc1'' = Inl Runtime_Error" by code_simp
  from k l1 l2 m e n show ?thesis by blast
qed

text \<open>Claim C8, pending transitions, in the form that holds: on a valid topology (every normal
  node of the datacenter has a shard, and every replica on such a node names a shard below
  the shard count of the node), when some table's tablet map has a pending transition, the
  planner returns the empty plan: no migration is emitted and no error is raised. Without
  validity the claim fails, since phases A and B run before the test of line 233 and raise an
  error (shown below on \<^verbatim>\<open>example_pending_bad_shard\<close>).\<close>

theorem pending_transitions_block_planning:
  assumes "\<not> zero_shard_node t d" and "\<not> bad_shard_replica t d"
    and "get_tablet_map (tablets t) tbl = Inr tmap" and "transitions tmap \<noteq> []"
  shows "make_plan_dc t d = Inr []"
proof -
  from valid_topology_Inr[OF assms(1,2)] obtain ns where ns: "compute_node_load t d = Inr ns" ..
  from assms(3) have "map_of (tablets t) tbl = Some tmap"
    by (auto simp: get_tablet_map_def split: option.splits)
  from clearjunk_complete[OF this] assms(4) have p: "pending t"
    unfolding pending_def all_tables_def by blast
  obtain ns2 mx mn mnode where I: "compute_imbalance (node_keys d (get_topology t)) (ns, 0, 0, None) = (ns2, mx, mn, mnode)"
    by (metis prod_cases4)
  show ?thesis
  proof (cases "mx = mn")
    case True
    from prepare_char(2)[OF ns I this] show ?thesis by (simp add: make_plan_dc_def)
  next
    case False
    from prepare_char(3)[OF ns I this] p have "prepare t d = Inr Pending" by auto
    then show ?thesis by (simp add: make_plan_dc_def)
  qed
qed

theorem pending_transitions_block_planning_witness:
  "\<not> zero_shard_node example_pending ''dc1'' \<and> \<not> bad_shard_replica example_pending ''dc1'' \<and>
   get_tablet_map (tablets example_pending) 0 = Inr (snd (hd (tablets example_pending))) \<and>
   transitions (snd (hd (tablets example_pending))) = [2] \<and>
   make_plan_dc example_pending ''dc1'' = Inr []"
proof -
  have v: "\<not> zero_shard_node example_pending ''dc1''" "\<not> bad_shard_replica example_pending ''dc1''"
    by code_simp+
  have g: "get_tablet_map (tablets example_pending) 0 = Inr (snd (hd (tablets example_pending)))"
    by (simp add: example_pending_def get_tablet_map_def)
  have tr: "transitions (snd (hd (tablets example_pending))) = [2]"
    by (simp add: example_pending_def)
  have "make_plan_dc example_pending ''dc1'' = Inr []"
    by (rule pending_transitions_block_planning[OF v g]) (simp add: tr)
  with v g tr show ?thesis by simp
qed

text \<open>On \<^verbatim>\<open>example_pending_bad_shard\<close> table 0 has a pending transition and line 173 raises
  for the replica on shard 7 of node 1.\<close>

theorem pending_transitions_block_planning_counterexample:
  "get_tablet_map (tablets example_pending_bad_shard) 0
     = Inr (snd (hd (tablets example_pending_bad_shard))) \<and>
   transitions (snd (hd (tablets example_pending_bad_shard))) = [2] \<and>
   make_plan_dc example_pending_bad_shard ''dc1'' = Inl Internal_Error"
  by code_simp

text \<open>Claim C9, invalid topology is fatal, in the form that holds: if some normal node of the
  datacenter has no shard, or some replica on a normal node of the datacenter names a shard
  that is not below the shard count of that node, the planner raises an error and returns no
  plan; and if every replica of the snapshot is on a host that the topology knows, the planner
  raises an error only in those two cases. Without that condition the "only if" fails: on
  \<^verbatim>\<open>example_unknown_host\<close> all shard counts and shard indices are valid and
  \<^verbatim>\<open>topo.get_node(r.host)\<close> of line 363 raises for the replica on host 9 (shown below).\<close>

theorem invalid_topology_fatal:
  "(zero_shard_node t d \<or> bad_shard_replica t d \<longrightarrow> (\<exists>e. make_plan_dc t d = Inl e)) \<and>
   (replicas_known t \<longrightarrow> (\<exists>e. make_plan_dc t d = Inl e) \<longrightarrow>
      zero_shard_node t d \<or> bad_shard_replica t d)"
proof (intro conjI impI)
  assume "zero_shard_node t d \<or> bad_shard_replica t d"
  then obtain e where "compute_node_load t d = Inl e"
    using compute_node_load_Inl_iff[of t d] by blast
  then have "make_plan_dc t d = Inl e" by (simp add: make_plan_dc_def prepare_def)
  then show "\<exists>e. make_plan_dc t d = Inl e" ..
next
  assume k: "replicas_known t" and "\<exists>e. make_plan_dc t d = Inl e"
  then obtain e where "make_plan_dc t d = Inl e" by blast
  from make_plan_dc_Inl[OF this k] show "zero_shard_node t d \<or> bad_shard_replica t d"
    using compute_node_load_Inl_iff[of t d] by blast
qed

theorem invalid_topology_fatal_witness:
  "zero_shard_node example_zero_shards ''dc1'' \<and> replicas_known example_zero_shards \<and>
   make_plan_dc example_zero_shards ''dc1'' = Inl Runtime_Error \<and>
   (zero_shard_node example_zero_shards ''dc1'' \<or> bad_shard_replica example_zero_shards ''dc1'')"
proof -
  have z: "zero_shard_node example_zero_shards ''dc1''" by code_simp
  have k: "replicas_known example_zero_shards" by code_simp
  have r: "make_plan_dc example_zero_shards ''dc1'' = Inl Runtime_Error" by code_simp
  from invalid_topology_fatal[of example_zero_shards "''dc1''"] k r
  have "zero_shard_node example_zero_shards ''dc1'' \<or> bad_shard_replica example_zero_shards ''dc1''"
    by blast
  with z k r show ?thesis by blast
qed

text \<open>On \<^verbatim>\<open>example_unknown_host\<close> every node has a shard and every replica on a node of the
  datacenter names shard 0, yet the planner fails: the first candidate has a second replica
  on host 9, which the rack scan looks up in the topology.\<close>

theorem invalid_topology_fatal_counterexample:
  "make_plan_dc example_unknown_host ''dc1'' = Inl Internal_Error \<and>
   \<not> zero_shard_node example_unknown_host ''dc1'' \<and>
   \<not> bad_shard_replica example_unknown_host ''dc1''"
  by code_simp

text \<open>Claim C10, termination of the selection loop, in the form that holds. When the planner
  enters the loop, every iteration that neither breaks out of the loop nor raises decreases
  \<^verbatim>\<open>loop_measure\<close> (one for every node of \<^verbatim>\<open>nodes_by_load\<close>, for every shard queued in its \<^verbatim>\<open>shards_by_load\<close> and for
  every candidate of its shards);
  after at most \<^verbatim>\<open>loop_measure s0\<close> iterations the loop stops, and the planner returns the plan
  of the state it stopped in, or the last iteration raised an error, which needs a replica on
  a host that the topology does not know. When the planner does not enter the loop, it
  returns the empty plan, or it raises an error and the topology is invalid. So the planner
  does not always return a plan: on \<^verbatim>\<open>example_unknown_host\<close> it enters the loop and the first
  iteration raises at line 363 (shown below).\<close>

theorem selection_loop_terminates:
  "(\<forall>c s0. run_iterations 0 t d = Some (c, s0) \<longrightarrow>
      (\<forall>k s s'. run_iterations k t d = Some (c, s) \<and> run_iterations (Suc k) t d = Some (c, s')
            \<longrightarrow> loop_measure s' < loop_measure s) \<and>
      (\<exists>k s. k \<le> loop_measure s0 \<and> run_iterations k t d = Some (c, s) \<and>
            run_iterations (Suc k) t d = None \<and>
            (make_plan_dc t d = Inr (plan s) \<or>
             (\<not> replicas_known t \<and> (\<exists>e. loop_body c s = Fault e \<and> make_plan_dc t d = Inl e))))) \<and>
   (run_iterations 0 t d = None \<longrightarrow>
      make_plan_dc t d = Inr [] \<or>
      ((zero_shard_node t d \<or> bad_shard_replica t d) \<and> (\<exists>e. make_plan_dc t d = Inl e)))"
proof (intro conjI allI impI)
  fix c s0 k s s'
  assume "run_iterations k t d = Some (c, s) \<and> run_iterations (Suc k) t d = Some (c, s')"
  then have a: "run_iterations k t d = Some (c, s)" and b: "run_iterations (Suc k) t d = Some (c, s')"
    by simp_all
  note st = run_iterations_step[OF a b]
  show "loop_measure s' < loop_measure s" by (rule loop_measure_loop_body[OF st(4,3)])
next
  fix c s0
  assume "run_iterations 0 t d = Some (c, s0)"
  then have p: "prepare t d = Inr (Ready c s0)" by (simp add: run_iterations_Some)
  have m: "make_plan_dc t d = loop c s0" by (simp add: make_plan_dc_def p)
  have tm: "tm c = t" by (rule prepare_Ready(1)[OF p])
  from loop_stops[of s0 c] obtain k s where k: "k \<le> loop_measure s0"
    "after_iterations k c s0 = Some s" "after_iterations (Suc k) c s0 = None"
    "loop c s0 = Inr (plan s) \<or> (\<exists>e. loop_body c s = Fault e \<and> loop c s0 = Inl e)"
    by blast
  have nf: "\<not> replicas_known t" if "loop c s0 = Inl e" for e
  proof
    assume "replicas_known t"
    with loop_no_fault[OF prepare_lb_inv[OF p]] tm obtain q where "loop c s0 = Inr q" by auto
    with that show False by simp
  qed
  have 1: "run_iterations k t d = Some (c, s)" using p k(2) by (simp add: run_iterations_Some)
  have 2: "run_iterations (Suc k) t d = None"
    using k(3) by (simp only: run_iterations_None[OF p])
  from k(4) nf have 3: "make_plan_dc t d = Inr (plan s) \<or>
             (\<not> replicas_known t \<and> (\<exists>e. loop_body c s = Fault e \<and> make_plan_dc t d = Inl e))"
    unfolding m by blast
  from k(1) 1 2 3 show "\<exists>k s. k \<le> loop_measure s0 \<and> run_iterations k t d = Some (c, s) \<and>
            run_iterations (Suc k) t d = None \<and>
            (make_plan_dc t d = Inr (plan s) \<or>
             (\<not> replicas_known t \<and> (\<exists>e. loop_body c s = Fault e \<and> make_plan_dc t d = Inl e)))"
    by blast
next
  assume n: "run_iterations 0 t d = None"
  show "make_plan_dc t d = Inr [] \<or>
      ((zero_shard_node t d \<or> bad_shard_replica t d) \<and> (\<exists>e. make_plan_dc t d = Inl e))"
  proof (cases "prepare t d")
    case (Inl e)
    then have "compute_node_load t d = Inl e" by (rule prepare_Inl)
    then have "zero_shard_node t d \<or> bad_shard_replica t d"
      using compute_node_load_Inl_iff[of t d] by blast
    moreover from Inl have "make_plan_dc t d = Inl e" by (simp add: make_plan_dc_def)
    ultimately show ?thesis by blast
  next
    case (Inr p)
    show ?thesis
    proof (cases p)
      case (Ready c s)
      with Inr n show ?thesis by (simp add: run_iterations_def)
    qed (use Inr in \<open>simp_all add: make_plan_dc_def\<close>)
  qed
qed

lemma example_move_entry:
  "(case (run_iterations 0 example_move ''dc1'', run_iterations 1 example_move ''dc1'') of
      (Some (c, s), Some (c', s')) \<Rightarrow> True
    | _ \<Rightarrow> False)"
  by code_simp

theorem selection_loop_terminates_witness:
  "\<exists>c s0 s1. run_iterations 0 example_move ''dc1'' = Some (c, s0) \<and>
      run_iterations (Suc 0) example_move ''dc1'' = Some (c, s1) \<and>
      loop_measure s1 < loop_measure s0 \<and>
      (\<exists>k s. k \<le> loop_measure s0 \<and> run_iterations k example_move ''dc1'' = Some (c, s) \<and>
            run_iterations (Suc k) example_move ''dc1'' = None \<and>
            make_plan_dc example_move ''dc1'' = Inr (plan s))"
proof -
  from example_move_entry obtain c s0 c' s1 where
    a: "run_iterations 0 example_move ''dc1'' = Some (c, s0)"
    and b: "run_iterations (Suc 0) example_move ''dc1'' = Some (c', s1)"
    by (auto split: option.splits prod.splits)
  from run_iterations_step(1)[OF a b] b have b': "run_iterations (Suc 0) example_move ''dc1'' = Some (c, s1)"
    by simp
  from selection_loop_terminates[of example_move "''dc1''"] a
  have t: "(\<forall>k s s'. run_iterations k example_move ''dc1'' = Some (c, s) \<and>
               run_iterations (Suc k) example_move ''dc1'' = Some (c, s')
            \<longrightarrow> loop_measure s' < loop_measure s) \<and>
      (\<exists>k s. k \<le> loop_measure s0 \<and> run_iterations k example_move ''dc1'' = Some (c, s) \<and>
            run_iterations (Suc k) example_move ''dc1'' = None \<and>
            (make_plan_dc example_move ''dc1'' = Inr (plan s) \<or>
             (\<not> replicas_known example_move \<and>
              (\<exists>e. loop_body c s = Fault e \<and> make_plan_dc example_move ''dc1'' = Inl e))))"
    by blast
  from t a b' have lt: "loop_measure s1 < loop_measure s0" by blast
  from t obtain k s where k: "k \<le> loop_measure s0" "run_iterations k example_move ''dc1'' = Some (c, s)"
    "run_iterations (Suc k) example_move ''dc1'' = None"
    "make_plan_dc example_move ''dc1'' = Inr (plan s) \<or>
       (\<not> replicas_known example_move \<and>
        (\<exists>e. loop_body c s = Fault e \<and> make_plan_dc example_move ''dc1'' = Inl e))"
    by blast
  from k(4) example_move_result have "make_plan_dc example_move ''dc1'' = Inr (plan s)" by auto
  with a b' lt k(1,2,3) show ?thesis by blast
qed

text \<open>On \<^verbatim>\<open>example_unknown_host\<close> the loop is entered and the planner returns no plan.\<close>

theorem selection_loop_terminates_counterexample:
  "\<not> Option.is_none (run_iterations 0 example_unknown_host ''dc1'') \<and>
   make_plan_dc example_unknown_host ''dc1'' = Inl Internal_Error"
  by code_simp

end
